theory Spec2Isabelle
  imports Complex_Main "HOL-Library.Numeral_Type"
begin

section \<open>Python values and exceptions\<close>

text \<open>
  The environment class \<open>GKP\<close> of \<open>gkp_tf_env.py\<close> is configured through keyword
  arguments and property setters. Values handed to the validating setters are
  dynamically typed, exceptions are values, and a setter returns the exception it
  raised (if any) together with the object as it is after the call, since Python mutates
  the object in place even on a path that raises later.
\<close>

datatype pyval = PyNone | PyInt int | PyFloat real | PyStr string

datatype exn =
    ValueError string
  | PyException string
  | AssertionError
  | TypeError
  | AttributeError string
  | KeyError string
  | ZeroDivisionError
  | InvalidArgumentError

datatype reward_fn = reward_zero | reward_stabilizers | reward_pauli | reward_mixed

datatype circuit = circuit_v1 | circuit_v2 | circuit_v3

section \<open>Tensors of the bookkeeping\<close>

text \<open>
  A tensor of shape \<open>[batch, time, dim]\<close> is a list (batch) of lists (time) of rows; an
  action component or a measurement record of shape \<open>[batch, dim]\<close> is a list of rows.
  The float32 entries are idealised as reals. Nested lists stand for a tensor only when they
  are rectangular: all rows have the same width.
\<close>

type_synonym tensor = "real list list list"
type_synonym tensor2 = "real list list"
type_synonym action = "(string \<times> tensor2) list"
type_synonym history = "(string \<times> tensor list) list"
type_synonym observation = "(string \<times> tensor) list"

datatype step_type = FIRST | MID | LAST

record time_step =
  step_type :: step_type
  reward :: "real list"
  discount :: "real list"
  observation :: observation

section \<open>The environment object\<close>

record 'v gkp =
  N_attr :: "pyval option"
  H :: int
  max_episode_length :: "int option"
  episode_length :: int
  batch_size_attr :: "int option"
  init_attr :: "string option"
  reward_mode_attr :: "string option"
  calculate_reward :: "reward_fn option"
  quantum_circuit_type :: string
  quantum_circuit :: "circuit option"
  action_spec :: "(string \<times> nat \<times> nat) list"
  code_map :: bool
  state :: "'v list"
  original :: "string list"
  info :: "'v list option"
  elapsed_steps :: int
  episode_ended :: bool
  episode_return :: "real list option"
  history :: history
  current_time_step :: "time_step option"

subsection \<open>Property setters\<close>

text \<open>\<open>'code_map' in self.__dir__()\<close>: the code tables have been built.\<close>

definition has_code_map :: "'v gkp \<Rightarrow> bool" where
  "has_code_map s = code_map s"

text \<open>The body of the \<open>try\<close> block of the \<open>batch_size\<close> setter.\<close>

fun batch_size_try :: "'v gkp \<Rightarrow> pyval \<Rightarrow> exn option \<times> 'v gkp" where
  "batch_size_try s (PyInt n) =
     (if n > 0 then (None, s\<lparr>batch_size_attr := Some n\<rparr>) else (Some AssertionError, s))"
| "batch_size_try s (PyFloat x) = (Some AssertionError, s)"
| "batch_size_try s PyNone = (Some TypeError, s)"
| "batch_size_try s (PyStr v) = (Some TypeError, s)"

definition batch_size_setter :: "'v gkp \<Rightarrow> pyval \<Rightarrow> exn option \<times> 'v gkp" where
  "batch_size_setter s sz =
     (if has_code_map s
      then (Some (ValueError ''Cannot change batch_size after initialization.''), s)
      else (case batch_size_try s sz of
              (None, s') \<Rightarrow> (None, s')
            | (Some e, s') \<Rightarrow> (Some (ValueError ''Batch size should be positive integer.''), s')))"

definition N_setter :: "'v gkp \<Rightarrow> pyval \<Rightarrow> exn option \<times> 'v gkp" where
  "N_setter s n =
     (if has_code_map s
      then (Some (ValueError ''Cannot change N after initialization.''), s)
      else (None, s\<lparr>N_attr := Some n\<rparr>))"

definition init_modes :: "string list" where
  "init_modes = [''vac'', ''random'', ''X+'', ''X-'', ''Y+'', ''Y-'', ''Z+'', ''Z-'']"

fun init_try :: "'v gkp \<Rightarrow> pyval \<Rightarrow> exn option \<times> 'v gkp" where
  "init_try s (PyStr v) =
     (if v \<in> set init_modes then (None, s\<lparr>init_attr := Some v\<rparr>) else (Some AssertionError, s))"
| "init_try s v = (Some AssertionError, s)"

definition init_setter :: "'v gkp \<Rightarrow> pyval \<Rightarrow> exn option \<times> 'v gkp" where
  "init_setter s val =
     (case init_try s val of
        (None, s') \<Rightarrow> (None, s')
      | (Some e, s') \<Rightarrow> (Some (ValueError ''Initial state not supported.''), s'))"

definition reward_modes :: "string list" where
  "reward_modes = [''zero'', ''pauli'', ''stabilizers'', ''mixed'']"

text \<open>
  The body of the \<open>try\<close> block of the \<open>reward_mode\<close> setter. The mode is stored before
  the vacuum check, so the attribute keeps the rejected mode when the check raises.
\<close>

fun reward_mode_try :: "'v gkp \<Rightarrow> pyval \<Rightarrow> exn option \<times> 'v gkp" where
  "reward_mode_try s (PyStr mode) =
     (if mode \<notin> set reward_modes then (Some AssertionError, s)
      else
        let s1 = s\<lparr>reward_mode_attr := Some mode\<rparr>;
            s2 = (if mode = ''zero'' then s1\<lparr>calculate_reward := Some reward_zero\<rparr> else s1);
            s3 = (if mode = ''stabilizers''
                  then s2\<lparr>calculate_reward := Some reward_stabilizers\<rparr> else s2)
        in if mode = ''pauli'' then
             (case init_attr s3 of
                None \<Rightarrow> (Some (AttributeError ''_init''), s3)
              | Some i \<Rightarrow>
                  if i = ''vac''
                  then (Some (PyException ''Pauli reward not supported for vac''), s3)
                  else (None, s3\<lparr>calculate_reward := Some reward_pauli\<rparr>))
           else if mode = ''mixed'' then (None, s3\<lparr>calculate_reward := Some reward_mixed\<rparr>)
           else (None, s3))"
| "reward_mode_try s v = (Some AssertionError, s)"

definition reward_mode_setter :: "'v gkp \<Rightarrow> pyval \<Rightarrow> exn option \<times> 'v gkp" where
  "reward_mode_setter s mode =
     (case reward_mode_try s mode of
        (None, s') \<Rightarrow> (None, s')
      | (Some e, s') \<Rightarrow> (Some (ValueError ''Reward mode not supported.''), s'))"

subsection \<open>Construction\<close>

text \<open>
  Keyword arguments: the four validated properties take any Python value; the plain
  attributes are typed as the rest of the class uses them.
\<close>

datatype kwarg =
    Kw_N pyval
  | Kw_H int
  | Kw_max_episode_length "int option"
  | Kw_episode_length int
  | Kw_batch_size pyval
  | Kw_init pyval
  | Kw_reward_mode pyval
  | Kw_quantum_circuit_type string

fun setattr :: "'v gkp \<Rightarrow> kwarg \<Rightarrow> exn option \<times> 'v gkp" where
  "setattr s (Kw_N v) = N_setter s v"
| "setattr s (Kw_H h) = (None, s\<lparr>H := h\<rparr>)"
| "setattr s (Kw_max_episode_length m) = (None, s\<lparr>max_episode_length := m\<rparr>)"
| "setattr s (Kw_episode_length l) = (None, s\<lparr>episode_length := l\<rparr>)"
| "setattr s (Kw_batch_size v) = batch_size_setter s v"
| "setattr s (Kw_init v) = init_setter s v"
| "setattr s (Kw_reward_mode v) = reward_mode_setter s v"
| "setattr s (Kw_quantum_circuit_type t) = (None, s\<lparr>quantum_circuit_type := t\<rparr>)"

text \<open>A sequence of attribute assignments stops at the first one that raises.\<close>

fun setattrs :: "'v gkp \<Rightarrow> kwarg list \<Rightarrow> exn option \<times> 'v gkp" where
  "setattrs s [] = (None, s)"
| "setattrs s (kw # kws) =
     (case setattr s kw of
        (None, s') \<Rightarrow> setattrs s' kws
      | (Some e, s') \<Rightarrow> (Some e, s'))"

text \<open>The object before \<open>__init__\<close> has assigned anything.\<close>

definition new_object :: "'v gkp" where
  "new_object =
     \<lparr>N_attr = None, H = 0, max_episode_length = None, episode_length = 0,
      batch_size_attr = None, init_attr = None, reward_mode_attr = None,
      calculate_reward = None, quantum_circuit_type = [], quantum_circuit = None,
      action_spec = [], code_map = False, state = [], original = [], info = None,
      elapsed_steps = 0, episode_ended = False, episode_return = None, history = [],
      current_time_step = None\<rparr>"

definition defaults :: "kwarg list" where
  "defaults =
     [Kw_N (PyInt 100), Kw_H 1, Kw_max_episode_length None, Kw_episode_length 20,
      Kw_batch_size (PyInt 50), Kw_init (PyStr ''vac''),
      Kw_reward_mode (PyStr ''stabilizers''), Kw_quantum_circuit_type ''v1'']"

text \<open>
  \<open>create_specs\<close> builds the action spec (component name, then the shape \<open>[1, dim]\<close> of
  one entry) and looks the circuit up by name; an unknown name raises. The spec is the one
  the parent class keeps and \<open>self.action_spec()\<close> returns. Building the operator and code
  tables is summarised by the presence of the \<open>code_map\<close> attribute, which is all the
  setters read of it.
\<close>

definition make_action_spec :: "string \<Rightarrow> (string \<times> nat \<times> nat) list" where
  "make_action_spec qct =
     [(''alpha'', (1, 2)), (''beta'', (1, 2)), (''phi'', (1, 1))] @
     (if qct = ''v3'' then [(''epsilon'', (1, 2))] else [])"

definition create_specs :: "'v gkp \<Rightarrow> exn option \<times> 'v gkp" where
  "create_specs s =
     (let s1 = s\<lparr>action_spec := make_action_spec (quantum_circuit_type s)\<rparr>
      in if quantum_circuit_type s = ''v1''
         then (None, s1\<lparr>quantum_circuit := Some circuit_v1\<rparr>)
         else if quantum_circuit_type s = ''v2''
         then (None, s1\<lparr>quantum_circuit := Some circuit_v2\<rparr>)
         else if quantum_circuit_type s = ''v3''
         then (None, s1\<lparr>quantum_circuit := Some circuit_v3\<rparr>)
         else (Some (AttributeError (''quantum_circuit_'' @ quantum_circuit_type s)), s1))"

definition define_stabilizer_code :: "'v gkp \<Rightarrow> 'v gkp" where
  "define_stabilizer_code s = s\<lparr>code_map := True\<rparr>"

definition gkp_init :: "kwarg list \<Rightarrow> exn option \<times> 'v gkp" where
  "gkp_init kwargs =
     (case setattrs new_object (defaults @ kwargs) of
        (Some e, s) \<Rightarrow> (Some e, s)
      | (None, s) \<Rightarrow>
          (case create_specs s of
             (Some e, s') \<Rightarrow> (Some e, s')
           | (None, s') \<Rightarrow> (None, define_stabilizer_code s')))"

section \<open>Episodes: reset and step\<close>

subsection \<open>Library operations on lists and tensors\<close>

text \<open>Python's \<open>xs[s:]\<close> for any integer \<open>s\<close>; \<open>xs[-h:]\<close> is \<open>py_slice_from (- h) xs\<close>.\<close>

definition py_slice_from :: "int \<Rightarrow> 'a list \<Rightarrow> 'a list" where
  "py_slice_from s xs = drop (nat (if s < 0 then max (int (length xs) + s) 0 else s)) xs"

definition zeros :: "nat \<Rightarrow> nat \<Rightarrow> nat \<Rightarrow> tensor" where
  "zeros b t d = replicate b (replicate t (replicate d 0))"

definition ones :: "nat \<Rightarrow> nat \<Rightarrow> nat \<Rightarrow> tensor" where
  "ones b t d = replicate b (replicate t (replicate d 1))"

text \<open>\<open>tf.expand_dims(x, axis=1)\<close> on a \<open>[batch, dim]\<close> array.\<close>

definition expand_dims :: "tensor2 \<Rightarrow> tensor" where
  "expand_dims x = map (\<lambda>row. [row]) x"

text \<open>The rows of all the tensors of a list have one width (the last dimension).\<close>

definition same_width :: "tensor list \<Rightarrow> bool" where
  "same_width ts =
     (let ws = concat (map (\<lambda>u. concat (map (map length) u)) ts)
      in list_all (\<lambda>w. w = hd ws) ws)"

text \<open>
  \<open>tf.concat(ts, axis=1)\<close>: joins the time axes per batch element. It raises on an empty
  list, and when the tensors disagree on a dimension other than the time axis: the batch
  dimension or the width of the rows.
\<close>

definition tf_concat :: "tensor list \<Rightarrow> exn + tensor" where
  "tf_concat ts =
     (case ts of
        [] \<Rightarrow> Inl (ValueError ''concat of an empty list'')
      | t # _ \<Rightarrow>
          if list_all (\<lambda>u. length u = length t) ts \<and> same_width ts
          then Inr (map (\<lambda>b. concat (map (\<lambda>u. u ! b) ts)) [0..<length t])
          else Inl InvalidArgumentError)"

text \<open>
  \<open>np.random.randint(low, high)\<close> with the default 64-bit integer type draws from
  \<open>low, ..., high - 1\<close>. It checks the closed range \<open>[low, high - 1]\<close> in this order: \<open>low\<close>
  below \<open>- (2 ^ 63)\<close> raises, \<open>high - 1\<close> above \<open>2 ^ 63 - 1\<close> raises, and an empty range
  raises.
  The raw randomness is a natural number \<open>u\<close>; a uniform \<open>u\<close> below a multiple of
  \<open>high - low\<close> gives a uniform result.
\<close>

definition np_random_randint :: "int \<Rightarrow> int \<Rightarrow> nat \<Rightarrow> exn + int" where
  "np_random_randint low high u =
     (if low < - (2 ^ 63) then Inl (ValueError ''low is out of bounds for int64'')
      else if 2 ^ 63 - 1 < high - 1 then Inl (ValueError ''high is out of bounds for int64'')
      else if high - 1 < low then Inl (ValueError ''low >= high'')
      else Inr (low + int (u mod nat (high - low))))"

text \<open>\<open>np.random.choice(options, size=n)\<close> from a stream of raw draws.\<close>

definition np_random_choice :: "'a list \<Rightarrow> nat \<Rightarrow> (nat \<Rightarrow> nat) \<Rightarrow> 'a list" where
  "np_random_choice options n rng = map (\<lambda>k. options ! (rng k mod length options)) [0..<n]"

text \<open>The time steps of the agents library.\<close>

definition ts_restart :: "observation \<Rightarrow> nat \<Rightarrow> time_step" where
  "ts_restart obs b =
     \<lparr>step_type = FIRST, reward = replicate b 0, discount = replicate b 1, observation = obs\<rparr>"

definition ts_transition :: "observation \<Rightarrow> real list \<Rightarrow> time_step" where
  "ts_transition obs r =
     \<lparr>step_type = MID, reward = r, discount = replicate (length r) 1, observation = obs\<rparr>"

definition ts_termination :: "observation \<Rightarrow> real list \<Rightarrow> time_step" where
  "ts_termination obs r =
     \<lparr>step_type = LAST, reward = r, discount = replicate (length r) 0, observation = obs\<rparr>"

subsection \<open>History and observation\<close>

text \<open>\<open>{key : tf.concat(val[-self.H:], axis=1) for key, val in self.history.items()}\<close>\<close>

fun make_observation :: "int \<Rightarrow> history \<Rightarrow> exn + observation" where
  "make_observation h [] = Inr []"
| "make_observation h ((key, val) # rest) =
     (case tf_concat (py_slice_from (- h) val) of
        Inl e \<Rightarrow> Inl e
      | Inr t \<Rightarrow>
          (case make_observation h rest of
             Inl e \<Rightarrow> Inl e
           | Inr obs \<Rightarrow> Inr ((key, t) # obs)))"

text \<open>\<open>self.history[a].append(t)\<close>; a key the history does not have raises.\<close>

fun history_append :: "history \<Rightarrow> string \<Rightarrow> tensor \<Rightarrow> exn + history" where
  "history_append [] a t = Inl (KeyError a)"
| "history_append ((key, val) # rest) a t =
     (if key = a then Inr ((key, val @ [t]) # rest)
      else (case history_append rest a t of
              Inl e \<Rightarrow> Inl e
            | Inr rest' \<Rightarrow> Inr ((key, val) # rest')))"

fun append_actions :: "history \<Rightarrow> action \<Rightarrow> exn + history" where
  "append_actions hist [] = Inr hist"
| "append_actions hist ((a, x) # rest) =
     (case history_append hist a (expand_dims x) of
        Inl e \<Rightarrow> Inl e
      | Inr hist' \<Rightarrow> append_actions hist' rest)"

text \<open>
  \<open>self._episode_return += reward\<close>: the return starts as the integer 0 of \<open>_reset\<close>
  (\<open>None\<close> here), to which the first reward tensor is added by broadcasting; later
  rewards are added elementwise.
\<close>

fun add_return :: "real list option \<Rightarrow> real list \<Rightarrow> real list option" where
  "add_return None r = Some r"
| "add_return (Some acc) r = Some (map2 (+) acc r)"

subsection \<open>\<open>_reset\<close>\<close>

text \<open>
  \<open>states\<close> is the table of code states built at construction; \<open>rng\<close> is the stream
  of raw random draws this call consumes (draw 0 for the episode length, the following
  ones for the random initial states).
\<close>

definition cardinal_inits :: "string list" where
  "cardinal_inits = [''vac'', ''X+'', ''X-'', ''Y+'', ''Y-'', ''Z+'', ''Z-'']"

definition reset_state :: "(string \<Rightarrow> 'v) \<Rightarrow> (nat \<Rightarrow> nat) \<Rightarrow> nat \<Rightarrow> string \<Rightarrow> 'v gkp \<Rightarrow> 'v gkp" where
  "reset_state states rng b i s =
     (if i \<in> set cardinal_inits
      then s\<lparr>state := replicate b (states i), original := replicate b i\<rparr>
      else if i = ''random''
      then (let orig = np_random_choice [''X+'', ''Y+'', ''Z+''] b (\<lambda>k. rng (Suc k))
            in s\<lparr>original := orig, state := map states orig\<rparr>)
      else s)"

text \<open>\<open>if self.max_episode_length: self.episode_length = np.random.randint(1, ...)\<close>\<close>

definition reset_episode_length :: "(nat \<Rightarrow> nat) \<Rightarrow> 'v gkp \<Rightarrow> exn + 'v gkp" where
  "reset_episode_length rng s =
     (case max_episode_length s of
        None \<Rightarrow> Inr s
      | Some m \<Rightarrow>
          if m = 0 then Inr s
          else (case np_random_randint 1 m (rng 0) of
                  Inl e \<Rightarrow> Inl e
                | Inr l \<Rightarrow> Inr (s\<lparr>episode_length := l\<rparr>)))"

definition reset_history :: "nat \<Rightarrow> 'v gkp \<Rightarrow> history" where
  "reset_history b s =
     map (\<lambda>(key, t). (key, replicate (nat (H s)) t))
       (map (\<lambda>(key, (t, d)). (key, zeros b t d)) (action_spec s) @ [(''msmt'', ones b 1 1)])"

definition reset :: "(string \<Rightarrow> 'v) \<Rightarrow> (nat \<Rightarrow> nat) \<Rightarrow> 'v gkp \<Rightarrow> exn + 'v gkp" where
  "reset states rng s =
     (case init_attr s of
        None \<Rightarrow> Inl (AttributeError ''_init'')
      | Some i \<Rightarrow>
     (case batch_size_attr s of
        None \<Rightarrow> Inl (AttributeError ''_batch_size'')
      | Some bs \<Rightarrow>
     (case reset_episode_length rng (reset_state states rng (nat bs) i s) of
        Inl e \<Rightarrow> Inl e
      | Inr s1 \<Rightarrow>
          let s2 = s1\<lparr>episode_ended := False, elapsed_steps := 0, episode_return := None,
                      info := None\<rparr>;
              s3 = s2\<lparr>history := reset_history (nat bs) s2\<rparr>
          in (case make_observation (H s3) (history s3) of
                Inl e \<Rightarrow> Inl e
              | Inr obs \<Rightarrow> Inr (s3\<lparr>current_time_step := Some (ts_restart obs (nat bs))\<rparr>)))))"

subsection \<open>\<open>_step\<close>\<close>

text \<open>
  The circuit and the reward function are the ones the configuration selected; their
  implementations are parameters here: \<open>qc c r psi action\<close> is the result
  \<open>(psi_final, psi_cached, obs)\<close> of circuit \<open>c\<close>, or the exception it raises, and \<open>rw f r s obs action\<close> the reward
  of reward function \<open>f\<close>, both under the random draws \<open>r\<close> of this call.
\<close>

definition step ::
  "(circuit \<Rightarrow> 'r \<Rightarrow> 'v list \<Rightarrow> action \<Rightarrow> exn + 'v list \<times> 'v list \<times> tensor2) \<Rightarrow>
   (reward_fn \<Rightarrow> 'r \<Rightarrow> 'v gkp \<Rightarrow> tensor2 \<Rightarrow> action \<Rightarrow> real list) \<Rightarrow>
   'v gkp \<Rightarrow> action \<times> 'r \<Rightarrow> exn + 'v gkp" where
  "step qc rw s ar =
     (case ar of (action, r) \<Rightarrow>
     (case quantum_circuit s of
        None \<Rightarrow> Inl (AttributeError ''quantum_circuit'')
      | Some c \<Rightarrow>
     (case qc c r (state s) action of
        Inl e \<Rightarrow> Inl e
      | Inr (psi, cached, obs) \<Rightarrow>
        let s1 = s\<lparr>state := psi, info := Some cached\<rparr>;
            s2 = s1\<lparr>elapsed_steps := elapsed_steps s1 + 1\<rparr>;
            s3 = s2\<lparr>episode_ended := (elapsed_steps s2 = episode_length s2)\<rparr>
        in (case append_actions (history s3) action of
              Inl e \<Rightarrow> Inl e
            | Inr h1 \<Rightarrow>
           (case history_append h1 ''msmt'' (expand_dims obs) of
              Inl e \<Rightarrow> Inl e
            | Inr h2 \<Rightarrow>
           (case make_observation (H s3) h2 of
              Inl e \<Rightarrow> Inl e
            | Inr obsv \<Rightarrow>
           (case calculate_reward s3 of
              None \<Rightarrow> Inl (AttributeError ''calculate_reward'')
            | Some f \<Rightarrow>
                let s4 = s3\<lparr>history := h2\<rparr>;
                    rwd = rw f r s4 obs action;
                    s5 = s4\<lparr>episode_return := add_return (episode_return s4) rwd\<rparr>
                in Inr (s5\<lparr>current_time_step :=
                          Some (if episode_ended s5 then ts_termination obsv rwd
                                else ts_transition obsv rwd)\<rparr>))))))))"

text \<open>A run of consecutive steps stops at the first one that raises.\<close>

fun steps ::
  "(circuit \<Rightarrow> 'r \<Rightarrow> 'v list \<Rightarrow> action \<Rightarrow> exn + 'v list \<times> 'v list \<times> tensor2) \<Rightarrow>
   (reward_fn \<Rightarrow> 'r \<Rightarrow> 'v gkp \<Rightarrow> tensor2 \<Rightarrow> action \<Rightarrow> real list) \<Rightarrow>
   'v gkp \<Rightarrow> (action \<times> 'r) list \<Rightarrow> exn + 'v gkp" where
  "steps qc rw s [] = Inr s"
| "steps qc rw s (ar # ars) =
     (case step qc rw s ar of
        Inl e \<Rightarrow> Inl e
      | Inr s' \<Rightarrow> steps qc rw s' ars)"

section \<open>The observation window\<close>

text \<open>
  Vocabulary for stating what an observation holds: an array of shape \<open>[b, d]\<close>; an action
  that follows the action spec for a batch of \<open>b\<close> (its components are those of the spec,
  each an array of shape \<open>[b, d]\<close> for the width \<open>d\<close> the spec gives it); the measurement
  record a step obtains from the circuit; the entries that consecutive steps append to the
  history of a component; the fill row of a component and the tensor made of it; the keys of
  the history; and the link between the stored time step and the history.
\<close>

definition is_array :: "nat \<Rightarrow> nat \<Rightarrow> tensor2 \<Rightarrow> bool" where
  "is_array b d x \<longleftrightarrow> length x = b \<and> list_all (\<lambda>row. length row = d) x"

definition wf_action :: "nat \<Rightarrow> (string \<times> nat \<times> nat) list \<Rightarrow> action \<Rightarrow> bool" where
  "wf_action b spec a \<longleftrightarrow>
     distinct (map fst a) \<and> set (map fst a) = set (map fst spec)
     \<and> list_all (\<lambda>kx. case map_of spec (fst kx) of
                          None \<Rightarrow> False
                        | Some td \<Rightarrow> is_array b (snd td) (snd kx)) a"

definition measured ::
  "(circuit \<Rightarrow> 'r \<Rightarrow> 'v list \<Rightarrow> action \<Rightarrow> exn + 'v list \<times> 'v list \<times> tensor2) \<Rightarrow>
   'v gkp \<Rightarrow> action \<times> 'r \<Rightarrow> tensor2" where
  "measured qc s ar =
     (case quantum_circuit s of
        None \<Rightarrow> []
      | Some c \<Rightarrow>
          (case qc c (snd ar) (state s) (fst ar) of
             Inl e \<Rightarrow> []
           | Inr res \<Rightarrow> snd (snd res)))"

fun entries ::
  "(circuit \<Rightarrow> 'r \<Rightarrow> 'v list \<Rightarrow> action \<Rightarrow> exn + 'v list \<times> 'v list \<times> tensor2) \<Rightarrow>
   (reward_fn \<Rightarrow> 'r \<Rightarrow> 'v gkp \<Rightarrow> tensor2 \<Rightarrow> action \<Rightarrow> real list) \<Rightarrow>
   'v gkp \<Rightarrow> (action \<times> 'r) list \<Rightarrow> string \<Rightarrow> tensor2 list" where
  "entries qc rw s [] k = []"
| "entries qc rw s (ar # ars) k =
     (case step qc rw s ar of
        Inl e \<Rightarrow> []
      | Inr s' \<Rightarrow>
          (if k = ''msmt'' then measured qc s ar else the (map_of (fst ar) k))
            # entries qc rw s' ars k)"

definition fill_row :: "(string \<times> nat \<times> nat) list \<Rightarrow> string \<Rightarrow> real list" where
  "fill_row spec k =
     (if k = ''msmt'' then [1]
      else (case map_of spec k of None \<Rightarrow> [] | Some td \<Rightarrow> replicate (snd td) 0))"

definition hist_keys :: "(string \<times> nat \<times> nat) list \<Rightarrow> string list" where
  "hist_keys spec = map fst spec @ [''msmt'']"

definition fill_tensor :: "nat \<Rightarrow> (string \<times> nat \<times> nat) list \<Rightarrow> string \<Rightarrow> tensor" where
  "fill_tensor b spec k = replicate b [fill_row spec k]"

definition obs_ok :: "'v gkp \<Rightarrow> bool" where
  "obs_ok s \<longleftrightarrow>
     (case current_time_step s of
        None \<Rightarrow> False
      | Some ts \<Rightarrow> make_observation (H s) (history s) = Inr (observation ts))"

section \<open>Complex matrices and vectors\<close>

text \<open>
  Square complex matrices over a finite index type, with the matrix product as the ring
  multiplication, scalar multiples, the adjoint, and the maximal absolute row sum as norm.
  With this norm the matrices form a Banach algebra, so the exponential series \<open>exp\<close>
  is the matrix exponential.
\<close>

datatype 'n mat = Mat (ent: "'n \<Rightarrow> 'n \<Rightarrow> complex")

lemma mat_eq_iff: "A = B \<longleftrightarrow> (\<forall>i j. ent A i j = ent B i j)"
  by (cases A, cases B) (auto simp: fun_eq_iff)

lemma sum_unit_left: "(\<Sum>k\<in>UNIV. (if i = k then 1 else 0) * f k) = f i"
  for f :: "'n::finite \<Rightarrow> complex"
proof -
  have "(\<Sum>k\<in>UNIV. (if i = k then 1 else 0) * f k) = (\<Sum>k\<in>UNIV. if i = k then f k else 0)"
    by (intro sum.cong) auto
  then show ?thesis by simp
qed

lemma sum_unit_right: "(\<Sum>k\<in>UNIV. f k * (if k = j then 1 else 0)) = f j"
  for f :: "'n::finite \<Rightarrow> complex"
proof -
  have "(\<Sum>k\<in>UNIV. f k * (if k = j then 1 else 0)) = (\<Sum>k\<in>UNIV. if k = j then f k else 0)"
    by (intro sum.cong) auto
  then show ?thesis by simp
qed

instantiation mat :: (finite) ring_1
begin

definition zero_mat_def: "0 = Mat (\<lambda>i j. 0)"

definition one_mat_def: "1 = Mat (\<lambda>i j. if i = j then 1 else 0)"

definition plus_mat_def: "A + B = Mat (\<lambda>i j. ent A i j + ent B i j)"

definition uminus_mat_def: "- A = Mat (\<lambda>i j. - ent A i j)"

definition minus_mat_def: "A - B = Mat (\<lambda>i j. ent A i j - ent B i j)"

definition times_mat_def: "A * B = Mat (\<lambda>i j. \<Sum>k\<in>UNIV. ent A i k * ent B k j)"

instance
proof
  fix A B C :: "'a mat"
  show "A * B * C = A * (B * C)"
  proof -
    have "(\<Sum>k\<in>UNIV. (\<Sum>l\<in>UNIV. ent A i l * ent B l k) * ent C k j)
        = (\<Sum>l\<in>UNIV. ent A i l * (\<Sum>k\<in>UNIV. ent B l k * ent C k j))" for i j
    proof -
      have "(\<Sum>k\<in>UNIV. (\<Sum>l\<in>UNIV. ent A i l * ent B l k) * ent C k j)
          = (\<Sum>k\<in>UNIV. \<Sum>l\<in>UNIV. ent A i l * ent B l k * ent C k j)"
        by (simp add: sum_distrib_right)
      also have "\<dots> = (\<Sum>l\<in>UNIV. \<Sum>k\<in>UNIV. ent A i l * ent B l k * ent C k j)"
        by (rule sum.swap)
      also have "\<dots> = (\<Sum>l\<in>UNIV. ent A i l * (\<Sum>k\<in>UNIV. ent B l k * ent C k j))"
        by (simp add: sum_distrib_left mult.assoc)
      finally show ?thesis .
    qed
    then show ?thesis by (simp add: times_mat_def)
  qed
  show "1 * A = A" by (simp add: times_mat_def one_mat_def mat_eq_iff sum_unit_left)
  show "A * 1 = A" by (simp add: times_mat_def one_mat_def mat_eq_iff sum_unit_right)
  show "(A + B) * C = A * C + B * C"
    by (simp add: times_mat_def plus_mat_def distrib_right sum.distrib)
  show "A * (B + C) = A * B + A * C"
    by (simp add: times_mat_def plus_mat_def distrib_left sum.distrib)
  show "A + B + C = A + (B + C)" by (simp add: plus_mat_def add.assoc)
  show "A + B = B + A" by (simp add: plus_mat_def add.commute)
  show "0 + A = A" by (simp add: plus_mat_def zero_mat_def)
  show "- A + A = 0" by (simp add: plus_mat_def zero_mat_def uminus_mat_def)
  show "A - B = A + - B" by (simp add: plus_mat_def minus_mat_def uminus_mat_def)
  show "(0 :: 'a mat) \<noteq> 1" by (simp add: zero_mat_def one_mat_def fun_eq_iff)
qed

end

lemma ent_simps [simp]:
  "ent 0 i j = 0"
  "ent 1 i j = (if i = j then 1 else 0)"
  "ent (A + B) i j = ent A i j + ent B i j"
  "ent (- A) i j = - ent A i j"
  "ent (A - B) i j = ent A i j - ent B i j"
  "ent (A * B) i j = (\<Sum>k\<in>UNIV. ent A i k * ent B k j)"
  by (simp_all add: zero_mat_def one_mat_def plus_mat_def uminus_mat_def minus_mat_def
      times_mat_def)

definition smult :: "complex \<Rightarrow> 'n mat \<Rightarrow> 'n mat" where
  "smult c A = Mat (\<lambda>i j. c * ent A i j)"

definition adjoint :: "'n mat \<Rightarrow> 'n mat" where
  "adjoint A = Mat (\<lambda>i j. cnj (ent A j i))"

lemma ent_smult [simp]: "ent (smult c A) i j = c * ent A i j"
  by (simp add: smult_def)

lemma ent_adjoint [simp]: "ent (adjoint A) i j = cnj (ent A j i)"
  by (simp add: adjoint_def)

lemma smult_simps:
  "smult c (A + B) = smult c A + smult c B"
  "smult c (A - B) = smult c A - smult c B"
  "smult (c + d) A = smult c A + smult d A"
  "smult (c - d) A = smult c A - smult d A"
  "smult c (smult d A) = smult (c * d) A"
  "smult 1 A = A"
  "smult 0 A = 0"
  "smult c 0 = 0"
  "smult c (- A) = - smult c A"
  "smult (- c) A = - smult c A"
  for A B :: "'n::finite mat"
  by (simp_all add: mat_eq_iff algebra_simps)

lemma smult_mult:
  "smult c A * B = smult c (A * B)"
  "A * smult c B = smult c (A * B)"
  for A B :: "'n::finite mat"
  by (simp_all add: mat_eq_iff sum_distrib_left mult_ac)

definition unitary :: "'n::finite mat \<Rightarrow> bool" where
  "unitary U \<longleftrightarrow> adjoint U * U = 1 \<and> U * adjoint U = 1"

instantiation mat :: (finite) real_algebra_1
begin

definition scaleR_mat_def: "r *\<^sub>R A = smult (of_real r) A"

instance
proof
  fix a b :: real and A B :: "'a mat"
  show "a *\<^sub>R (A + B) = a *\<^sub>R A + a *\<^sub>R B"
    by (simp only: scaleR_mat_def smult_simps(1))
  show "(a + b) *\<^sub>R A = a *\<^sub>R A + b *\<^sub>R A"
    by (simp only: scaleR_mat_def of_real_add smult_simps(3))
  show "a *\<^sub>R b *\<^sub>R A = (a * b) *\<^sub>R A"
    by (simp only: scaleR_mat_def of_real_mult smult_simps(5))
  show "1 *\<^sub>R A = A"
    by (simp only: scaleR_mat_def of_real_1 smult_simps(6))
  show "a *\<^sub>R A * B = a *\<^sub>R (A * B)"
    by (simp only: scaleR_mat_def smult_mult)
  show "A * a *\<^sub>R B = a *\<^sub>R (A * B)"
    by (simp only: scaleR_mat_def smult_mult)
qed

end

definition row_sum :: "'n::finite mat \<Rightarrow> 'n \<Rightarrow> real" where
  "row_sum A i = (\<Sum>j\<in>UNIV. cmod (ent A i j))"

definition mat_norm :: "'n::finite mat \<Rightarrow> real" where
  "mat_norm A = Max (range (row_sum A))"

lemma row_sum_le_norm: "row_sum A i \<le> mat_norm A"
  by (simp add: mat_norm_def)

lemma norm_le_iff: "mat_norm A \<le> c \<longleftrightarrow> (\<forall>i. row_sum A i \<le> c)"
  for A :: "'n::finite mat"
  by (auto simp: mat_norm_def)

lemma row_sum_nonneg: "0 \<le> row_sum A i"
  by (simp add: row_sum_def sum_nonneg)

lemma norm_mat_nonneg: "0 \<le> mat_norm A" for A :: "'n::finite mat"
  using row_sum_nonneg [of A undefined] row_sum_le_norm [of A undefined] by linarith

lemma ent_le_row_sum: "cmod (ent A i j) \<le> row_sum A i"
  unfolding row_sum_def by (rule member_le_sum) auto

lemma ent_le_norm: "cmod (ent A i j) \<le> mat_norm A"
  using ent_le_row_sum [of A i j] row_sum_le_norm [of A i] by linarith

lemma norm_le_sum_ent: "mat_norm A \<le> (\<Sum>i\<in>UNIV. \<Sum>j\<in>UNIV. cmod (ent A i j))"
  for A :: "'n::finite mat"
proof -
  have "row_sum A i \<le> (\<Sum>i\<in>UNIV. row_sum A i)" for i
    by (rule member_le_sum) (auto simp: row_sum_nonneg)
  then show ?thesis by (simp add: norm_le_iff row_sum_def)
qed

lemma row_sum_smult: "row_sum (smult c A) i = cmod c * row_sum A i"
  by (simp add: row_sum_def norm_mult sum_distrib_left)

lemma norm_smult_le: "mat_norm (smult c A) \<le> cmod c * mat_norm A" for A :: "'n::finite mat"
  by (simp add: norm_le_iff row_sum_smult row_sum_le_norm mult_left_mono)

lemma norm_smult: "mat_norm (smult c A) = cmod c * mat_norm A" for A :: "'n::finite mat"
proof (cases "c = 0")
  case True
  have "row_sum (0 :: 'n mat) i = 0" for i by (simp add: row_sum_def)
  then have "mat_norm (0 :: 'n mat) = 0"
    using norm_le_iff [of "0 :: 'n mat" 0] norm_mat_nonneg [of "0 :: 'n mat"] by simp
  with True show ?thesis by (simp add: smult_simps)
next
  case False
  have "mat_norm A = mat_norm (smult (inverse c) (smult c A))"
    using False by (simp add: smult_simps)
  also have "\<dots> \<le> cmod (inverse c) * mat_norm (smult c A)" by (rule norm_smult_le)
  also have "\<dots> = mat_norm (smult c A) / cmod c"
    by (simp add: norm_inverse divide_inverse mult.commute)
  finally have "cmod c * mat_norm A \<le> mat_norm (smult c A)"
    using False by (simp add: pos_le_divide_eq mult.commute)
  with norm_smult_le [of c A] show ?thesis by simp
qed

lemma row_sum_add: "row_sum (A + B) i \<le> row_sum A i + row_sum B i"
  by (simp add: row_sum_def sum.distrib [symmetric] sum_mono norm_triangle_ineq)

lemma row_sum_mult: "row_sum (A * B) i \<le> row_sum A i * mat_norm B" for A B :: "'n::finite mat"
proof -
  have "row_sum (A * B) i \<le> (\<Sum>j\<in>UNIV. \<Sum>k\<in>UNIV. cmod (ent A i k) * cmod (ent B k j))"
    unfolding row_sum_def
    by (intro sum_mono) (simp add: order_trans [OF norm_sum] norm_mult)
  also have "\<dots> = (\<Sum>k\<in>UNIV. cmod (ent A i k) * row_sum B k)"
    unfolding row_sum_def by (subst sum.swap) (simp add: sum_distrib_left)
  also have "\<dots> \<le> (\<Sum>k\<in>UNIV. cmod (ent A i k) * mat_norm B)"
    by (intro sum_mono mult_left_mono row_sum_le_norm) simp
  also have "\<dots> = row_sum A i * mat_norm B"
    by (simp add: row_sum_def sum_distrib_right)
  finally show ?thesis .
qed

instantiation mat :: (finite) real_normed_algebra_1
begin

definition norm_mat_def: "norm A = mat_norm A" for A :: "'a mat"

definition dist_mat_def: "dist A B = norm (A - B)" for A B :: "'a mat"

definition sgn_mat_def: "sgn A = A /\<^sub>R norm A" for A :: "'a mat"

definition uniformity_mat_def [code del]:
  "(uniformity :: ('a mat \<times> 'a mat) filter) = (INF e\<in>{0 <..}. principal {(x, y). dist x y < e})"

definition open_mat_def [code del]:
  "open (U :: 'a mat set) \<longleftrightarrow> (\<forall>x\<in>U. eventually (\<lambda>(x', y). x' = x \<longrightarrow> y \<in> U) uniformity)"

instance
proof
  fix a :: real and A B :: "'a mat"
  note nd = norm_mat_def
  show "dist A B = norm (A - B)" by (rule dist_mat_def)
  show "sgn A = A /\<^sub>R norm A" by (rule sgn_mat_def)
  show "(uniformity :: ('a mat \<times> 'a mat) filter) = (INF e\<in>{0 <..}. principal {(x, y). dist x y < e})"
    by (rule uniformity_mat_def)
  show "open U \<longleftrightarrow> (\<forall>x\<in>U. eventually (\<lambda>(x', y). x' = x \<longrightarrow> y \<in> U) uniformity)"
    for U :: "'a mat set"
    by (rule open_mat_def)
  show "norm A = 0 \<longleftrightarrow> A = 0"
    unfolding nd
  proof
    assume z: "mat_norm A = 0"
    have "cmod (ent A i j) = 0" for i j
      using ent_le_norm [of A i j] z by simp
    then show "A = 0" by (simp add: mat_eq_iff)
  next
    assume "A = 0"
    then have "row_sum A i = 0" for i by (simp add: row_sum_def)
    then show "mat_norm A = 0"
      using norm_le_iff [of A 0] norm_mat_nonneg [of A] by simp
  qed
  show "norm (A + B) \<le> norm A + norm B"
  proof -
    have "row_sum (A + B) i \<le> mat_norm A + mat_norm B" for i
      using row_sum_add [of A B i] row_sum_le_norm [of A i] row_sum_le_norm [of B i] by linarith
    then show ?thesis by (simp add: nd norm_le_iff)
  qed
  show "norm (a *\<^sub>R A) = \<bar>a\<bar> * norm A"
    by (simp add: nd scaleR_mat_def norm_smult)
  show "norm (A * B) \<le> norm A * norm B"
  proof -
    have "row_sum (A * B) i \<le> mat_norm A * mat_norm B" for i
      using row_sum_mult [of A B i] mult_right_mono [OF row_sum_le_norm [of A i] norm_mat_nonneg [of B]]
      by linarith
    then show ?thesis by (simp add: nd norm_le_iff)
  qed
  show "norm (1 :: 'a mat) = 1"
  proof -
    have "row_sum (1 :: 'a mat) i = 1" for i
    proof -
      have "row_sum (1 :: 'a mat) i = (\<Sum>j\<in>UNIV. if i = j then 1 else 0)"
        unfolding row_sum_def by (intro sum.cong) auto
      then show ?thesis by simp
    qed
    then have "range (row_sum (1 :: 'a mat)) = {1}" by auto
    then show ?thesis by (simp add: nd mat_norm_def)
  qed
qed

end

lemma norm_mat_le_sum: "norm A \<le> (\<Sum>i\<in>UNIV. \<Sum>j\<in>UNIV. cmod (ent A i j))"
  for A :: "'n::finite mat"
  by (simp add: norm_mat_def norm_le_sum_ent)

lemma cmod_ent_le_norm: "cmod (ent A i j) \<le> norm A"
  for A :: "'n::finite mat"
  by (simp add: norm_mat_def ent_le_norm)

instance mat :: (finite) banach
proof
  fix X :: "nat \<Rightarrow> 'a mat"
  assume X: "Cauchy X"
  have c: "Cauchy (\<lambda>n. ent (X n) i j)" for i j
    unfolding Cauchy_iff
  proof (intro allI impI)
    fix e :: real assume "0 < e"
    with X obtain M where M: "\<forall>m\<ge>M. \<forall>n\<ge>M. norm (X m - X n) < e"
      unfolding Cauchy_iff by blast
    have "cmod (ent (X m) i j - ent (X n) i j) < e" if "m \<ge> M" "n \<ge> M" for m n
      using cmod_ent_le_norm [of "X m - X n" i j] M that by (simp add: order_le_less_trans)
    then show "\<exists>M. \<forall>m\<ge>M. \<forall>n\<ge>M. cmod (ent (X m) i j - ent (X n) i j) < e"
      by blast
  qed
  define L where "L = Mat (\<lambda>i j. lim (\<lambda>n. ent (X n) i j))"
  have l: "(\<lambda>n. ent (X n) i j) \<longlonglongrightarrow> ent L i j" for i j
    using Cauchy_convergent [OF c [of i j]] by (simp add: L_def convergent_LIMSEQ_iff)
  have "(\<lambda>n. cmod (ent (X n) i j - ent L i j)) \<longlonglongrightarrow> 0" for i j
    using l [of i j] by (simp add: LIM_zero_iff tendsto_norm_zero_iff)
  then have s: "(\<lambda>n. \<Sum>i\<in>UNIV. \<Sum>j\<in>UNIV. cmod (ent (X n) i j - ent L i j)) \<longlonglongrightarrow> 0"
    by (intro tendsto_null_sum)
  have "(\<lambda>n. X n - L) \<longlonglongrightarrow> 0"
  proof (rule tendsto_0_le [OF s])
    show "eventually (\<lambda>n. norm (X n - L)
        \<le> norm (\<Sum>i\<in>UNIV. \<Sum>j\<in>UNIV. cmod (ent (X n) i j - ent L i j)) * 1) sequentially"
    proof (rule always_eventually, rule allI)
      fix n
      have "0 \<le> (\<Sum>i\<in>UNIV. \<Sum>j\<in>UNIV. cmod (ent (X n) i j - ent L i j))"
        by (intro sum_nonneg) simp
      with norm_mat_le_sum [of "X n - L"]
      show "norm (X n - L)
        \<le> norm (\<Sum>i\<in>UNIV. \<Sum>j\<in>UNIV. cmod (ent (X n) i j - ent L i j)) * 1"
        by simp
    qed
  qed
  then have "X \<longlonglongrightarrow> L" by (simp add: LIM_zero_iff)
  then show "convergent X" by (rule convergentI)
qed

subsection \<open>State vectors\<close>

datatype 'n vec = Vec (coord: "'n \<Rightarrow> complex")

definition mat_vec :: "'n::finite mat \<Rightarrow> 'n vec \<Rightarrow> 'n vec" where
  "mat_vec A v = Vec (\<lambda>i. \<Sum>j\<in>UNIV. ent A i j * coord v j)"

definition vdot :: "'n::finite vec \<Rightarrow> 'n vec \<Rightarrow> complex" where
  "vdot u v = (\<Sum>j\<in>UNIV. coord u j * coord v j)"

definition vconj :: "'n vec \<Rightarrow> 'n vec" where
  "vconj v = Vec (\<lambda>i. cnj (coord v i))"

definition vscale :: "complex \<Rightarrow> 'n vec \<Rightarrow> 'n vec" where
  "vscale c v = Vec (\<lambda>i. c * coord v i)"

definition vadd :: "'n vec \<Rightarrow> 'n vec \<Rightarrow> 'n vec" where
  "vadd u v = Vec (\<lambda>i. coord u i + coord v i)"

definition norm2 :: "'n::finite vec \<Rightarrow> real" where
  "norm2 v = (\<Sum>j\<in>UNIV. (cmod (coord v j))\<^sup>2)"

section \<open>The oscillator simulation\<close>

text \<open>
  \<open>oscillator_env.py\<close> and the quantum part of \<open>gkp_tf_env.py\<close>. A state vector of the
  truncated oscillator is a \<open>'n vec\<close>, an operator a \<open>'n mat\<close>, and a tensor with a leading
  batch dimension is a list with one entry per batch element. The complex64 entries are
  idealised as complex numbers, and \<open>tf.linalg.expm\<close> is the exponential series \<open>exp\<close> of
  the matrix algebra.
\<close>

subsection \<open>Operators of the truncated oscillator\<close>

text \<open>
  The index type \<open>'n\<close> enumerates the Fock levels in increasing order; \<open>level i\<close> is the
  number of the level. \<open>destroy\<close>, \<open>create\<close> and \<open>num\<close> are the matrices the operator
  library returns for the truncation: \<open>\<langle>m|a|n\<rangle> = sqrt n\<close> for \<open>n = m + 1\<close>, its adjoint,
  and the diagonal of level numbers.
\<close>

definition level :: "'n::{finite,linorder} \<Rightarrow> nat" where
  "level i = card {j. j < i}"

definition destroy :: "'n::{finite,linorder} mat" where
  "destroy =
     Mat (\<lambda>i j. if level j = Suc (level i) then complex_of_real (sqrt (real (level j))) else 0)"

definition create :: "'n::{finite,linorder} mat" where
  "create =
     Mat (\<lambda>i j. if level i = Suc (level j) then complex_of_real (sqrt (real (level i))) else 0)"

definition num :: "'n::{finite,linorder} mat" where
  "num = Mat (\<lambda>i j. if i = j then of_nat (level i) else 0)"

text \<open>
  The operator attributes \<open>self.I\<close>, \<open>self.a\<close>, \<open>self.a_dag\<close>, \<open>self.q\<close>, \<open>self.p\<close>,
  \<open>self.n\<close> (prefixed here, since a field name is a global constant), the Hamiltonian and
  the collapse operators. \<open>K_osc\<close> and \<open>T1_osc\<close> come from the configuration module.
\<close>

record 'n oscillator =
  op_I :: "'n mat"
  op_a :: "'n mat"
  op_a_dag :: "'n mat"
  op_q :: "'n mat"
  op_p :: "'n mat"
  op_n :: "'n mat"
  Hamiltonian :: "'n mat"
  c_ops :: "'n mat list"

definition define_operators :: "real \<Rightarrow> real \<Rightarrow> ('n::{finite,linorder}) oscillator" where
  "define_operators K_osc T1_osc =
     \<lparr>op_I = 1, op_a = destroy, op_a_dag = create,
      op_q = smult (1 / complex_of_real (sqrt 2)) (adjoint destroy + destroy),
      op_p = smult (1 / complex_of_real (sqrt 2)) (smult \<i> (adjoint destroy - destroy)),
      op_n = num,
      Hamiltonian = smult (complex_of_real (- 1 / 2 * (2 * pi) * K_osc)) (num * num),
      c_ops = [smult (complex_of_real (sqrt (1 / T1_osc))) destroy]\<rparr>"

subsection \<open>Gates\<close>

text \<open>
  \<open>translate\<close>: the local \<open>batch\<close> is the generator, one per batch element, and the
  operator is its matrix exponential. The reshape to \<open>[batch_size, 1, 1]\<close> raises unless
  there are \<open>batch_size\<close> amplitudes. \<open>phase\<close> likewise, with the exponential of a
  one-by-one matrix.
\<close>

definition generator :: "('n::finite) oscillator \<Rightarrow> complex \<Rightarrow> 'n mat" where
  "generator env amplitude =
     smult (amplitude / complex_of_real (sqrt 2)) (op_a_dag env)
     - smult (cnj amplitude / complex_of_real (sqrt 2)) (op_a env)"

definition translation :: "('n::finite) oscillator \<Rightarrow> complex \<Rightarrow> 'n mat" where
  "translation env amplitude = exp (generator env amplitude)"

definition translate ::
  "('n::finite) oscillator \<Rightarrow> nat \<Rightarrow> complex list \<Rightarrow> exn + 'n mat list" where
  "translate env b amplitude =
     (if length amplitude = b then Inr (map (translation env) amplitude)
      else Inl InvalidArgumentError)"

definition phase :: "nat \<Rightarrow> real list \<Rightarrow> exn + complex list" where
  "phase b phi =
     (if length phi = b then Inr (map (\<lambda>x. exp (\<i> * complex_of_real x)) phi)
      else Inl InvalidArgumentError)"

subsection \<open>The measurement operators of the three circuits\<close>

text \<open>
  Each circuit builds \<open>Kraus[0] = c (X + phase Y)\<close> and \<open>Kraus[1] = c (X - phase Y)\<close> per
  batch element: version 1 with \<open>X = I\<close>, \<open>Y = T(beta)\<close>, \<open>c = 1/2\<close>; version 2 with
  \<open>X = T(beta/2)\<^sup>\<dagger>\<close>, \<open>Y = T(beta/2)\<close>, \<open>c = 1/2\<close>; version 3 with the two chunks and \<open>c = 1/4\<close>.
\<close>

definition kraus_pair ::
  "complex \<Rightarrow> 'n::finite mat list \<Rightarrow> complex list \<Rightarrow> 'n mat list \<Rightarrow> 'n mat list \<times> 'n mat list" where
  "kraus_pair c X ph Y =
     (map2 (\<lambda>x (f, y). smult c (x + smult f y)) X (zip ph Y),
      map2 (\<lambda>x (f, y). smult c (x - smult f y)) X (zip ph Y))"

definition kraus_v1 ::
  "('n::finite) oscillator \<Rightarrow> nat \<Rightarrow> real list \<Rightarrow> complex list \<Rightarrow>
   exn + 'n mat list \<times> 'n mat list" where
  "kraus_v1 env b phi beta =
     (case translate env b beta of
        Inl e \<Rightarrow> Inl e
      | Inr T_b \<Rightarrow>
          (case phase b phi of
             Inl e \<Rightarrow> Inl e
           | Inr ph \<Rightarrow> Inr (kraus_pair (1 / 2) (replicate b (op_I env)) ph T_b)))"

definition kraus_v2 ::
  "('n::finite) oscillator \<Rightarrow> nat \<Rightarrow> real list \<Rightarrow> complex list \<Rightarrow>
   exn + 'n mat list \<times> 'n mat list" where
  "kraus_v2 env b phi beta =
     (case translate env b (map (\<lambda>x. x / 2) beta) of
        Inl e \<Rightarrow> Inl e
      | Inr T_b \<Rightarrow>
          (case phase b phi of
             Inl e \<Rightarrow> Inl e
           | Inr ph \<Rightarrow> Inr (kraus_pair (1 / 2) (map adjoint T_b) ph T_b)))"

definition chunk1 :: "'n::finite mat \<Rightarrow> 'n mat \<Rightarrow> 'n mat \<Rightarrow> 'n mat \<Rightarrow> 'n mat" where
  "chunk1 Tpb Tmb Tpe Tme =
     smult \<i> (Tmb * (Tpe * Tpb)) - smult \<i> (Tmb * (Tme * Tpb))
     + Tmb * (Tme * Tmb) + Tmb * (Tpe * Tmb)"

definition chunk2 :: "'n::finite mat \<Rightarrow> 'n mat \<Rightarrow> 'n mat \<Rightarrow> 'n mat \<Rightarrow> 'n mat" where
  "chunk2 Tpb Tmb Tpe Tme =
     smult \<i> (Tpb * (Tme * Tmb)) - smult \<i> (Tpb * (Tpe * Tmb))
     + Tpb * (Tme * Tpb) + Tpb * (Tpe * Tpb)"

definition kraus_v3 ::
  "('n::finite) oscillator \<Rightarrow> nat \<Rightarrow> real list \<Rightarrow> complex list \<Rightarrow> complex list \<Rightarrow>
   exn + 'n mat list \<times> 'n mat list" where
  "kraus_v3 env b phi beta epsilon =
     (case translate env b (map (\<lambda>x. x / 2) beta) of
        Inl e \<Rightarrow> Inl e
      | Inr T_pb \<Rightarrow>
     (case translate env b (map (\<lambda>x. x / 2) epsilon) of
        Inl e \<Rightarrow> Inl e
      | Inr T_pe \<Rightarrow>
     (case phase b phi of
        Inl e \<Rightarrow> Inl e
      | Inr ph \<Rightarrow>
          Inr (kraus_pair (1 / 4)
                (map2 (\<lambda>B E. chunk1 B (adjoint B) E (adjoint E)) T_pb T_pe) ph
                (map2 (\<lambda>B E. chunk2 B (adjoint B) E (adjoint E)) T_pb T_pe)))))"

subsection \<open>Normalization and measurement\<close>

definition normalize :: "('n::finite) vec list \<Rightarrow> 'n vec list" where
  "normalize st =
     map (\<lambda>v. vscale (1 / complex_of_real (sqrt (Re (vdot (vconj v) v)))) v) st"

text \<open>\<open>a[:,0] + 1j*a[:,1]\<close>; a row with fewer than two entries raises.\<close>

fun vec_to_complex :: "tensor2 \<Rightarrow> exn + complex list" where
  "vec_to_complex [] = Inr []"
| "vec_to_complex (row # rows) =
     (case row of
        x # y # rest \<Rightarrow>
          (case vec_to_complex rows of
             Inl e \<Rightarrow> Inl e
           | Inr zs \<Rightarrow> Inr (Complex x y # zs))
      | _ \<Rightarrow> Inl InvalidArgumentError)"

text \<open>
  \<open>tfp.distributions.Bernoulli(probs=...).sample()\<close>: the sampler compares one uniform
  draw from \<open>[0, 1)\<close> per batch element with the probability; the draws \<open>u\<close> are the
  randomness of the call.
\<close>

definition bernoulli_sample :: "real list \<Rightarrow> real list \<Rightarrow> int list" where
  "bernoulli_sample probs u = map2 (\<lambda>pr x. if x < pr then 1 else 0) probs u"

text \<open>
  \<open>measurement\<close>. The Kraus dictionary maps the outcome to its batch of operators; the
  outcomes 0 and 1 are read. The batched products raise when the batch dimensions differ.
\<close>

definition measurement ::
  "real list \<Rightarrow> ('n::finite) vec list \<Rightarrow> (nat \<Rightarrow> 'n mat list option) \<Rightarrow>
   exn + 'n vec list \<times> tensor2" where
  "measurement u psi Kraus =
     (case Kraus 0 of
        None \<Rightarrow> Inl (KeyError ''0'')
      | Some K0 \<Rightarrow>
     (case Kraus 1 of
        None \<Rightarrow> Inl (KeyError ''1'')
      | Some K1 \<Rightarrow>
          if length K0 = length psi \<and> length K1 = length psi \<and> length u = length psi
          then
            let collapsed0 = map2 mat_vec K0 psi;
                collapsed1 = map2 mat_vec K1 psi;
                p0 = map (\<lambda>c. Re (vdot (vconj c) c)) collapsed0;
                p1 = map (\<lambda>c. Re (vdot (vconj c) c)) collapsed1;
                obs = bernoulli_sample (map2 (\<lambda>x y. y / (x + y)) p0 p1) u;
                mask = map complex_of_int obs;
                psi' = map2 (\<lambda>(c0, c1) m. vadd (vscale (1 - m) c0) (vscale m c1))
                         (zip collapsed0 collapsed1) mask
            in Inr (psi', map (\<lambda>ob. [real_of_int (1 - 2 * ob)]) obs)
          else Inl InvalidArgumentError))"

subsection \<open>The Kraus map of the trajectory simulator\<close>

text \<open>
  \<open>init_monte_carlo_sim\<close>. The durations come from the configuration module. The loop
  over the collapse operators fills \<open>Kraus[i+1]\<close> and subtracts from \<open>Kraus[0]\<close>;
  \<open>math.sqrt\<close> raises on a negative step and the step counts divide by the step. The
  result is what the two simulators are constructed with: the batched Kraus dictionary and
  the number of steps (\<open>int(...)\<close> truncates towards zero).
\<close>

record sim_config =
  discrete_step_duration :: real
  t_gate :: real
  t_read :: real
  t_delay :: real

record 'n trajectory_sim =
  Kraus_ops :: "nat \<Rightarrow> 'n mat list option"
  mc_steps :: int

definition py_int :: "real \<Rightarrow> int" where
  "py_int x = (if 0 \<le> x then \<lfloor>x\<rfloor> else \<lceil>x\<rceil>)"

fun kraus_loop ::
  "real \<Rightarrow> nat \<Rightarrow> 'n::finite mat list \<Rightarrow> (nat \<Rightarrow> 'n mat option) \<Rightarrow>
   exn + (nat \<Rightarrow> 'n mat option)" where
  "kraus_loop dt i [] Kraus = Inr Kraus"
| "kraus_loop dt i (c # cs) Kraus =
     (if dt < 0 then Inl (ValueError ''math domain error'')
      else (case Kraus 0 of
              None \<Rightarrow> Inl (KeyError ''0'')
            | Some K0 \<Rightarrow>
                kraus_loop dt (Suc i) cs
                  (Kraus(Suc i \<mapsto> smult (complex_of_real (sqrt dt)) c,
                         0 \<mapsto> K0 - smult (complex_of_real dt) (smult (1 / 2) (adjoint c * c))))))"

definition init_monte_carlo_sim ::
  "('n::finite) oscillator \<Rightarrow> sim_config \<Rightarrow> nat \<Rightarrow>
   exn + 'n trajectory_sim \<times> 'n trajectory_sim" where
  "init_monte_carlo_sim env cfg b =
     (let dt = discrete_step_duration cfg;
          Kraus0 = [0 \<mapsto> op_I env - smult (complex_of_real dt) (smult \<i> (Hamiltonian env))]
      in case kraus_loop dt 0 (c_ops env) Kraus0 of
           Inl e \<Rightarrow> Inl e
         | Inr Kraus \<Rightarrow>
             let Kraus_tf = (\<lambda>i. map_option (replicate b) (Kraus i))
             in if dt = 0 then Inl ZeroDivisionError
                else Inr (\<lparr>Kraus_ops = Kraus_tf,
                           mc_steps = py_int ((t_gate cfg + t_read cfg) / dt)\<rparr>,
                          \<lparr>Kraus_ops = Kraus_tf, mc_steps = py_int (t_delay cfg / dt)\<rparr>))"

subsection \<open>The circuits\<close>

text \<open>
  The three circuits share everything but the measurement operators: the delay
  evolution, the feedback translation (whose result is cached), the round evolution, the
  normalization and the measurement. The trajectory simulator's \<open>run\<close> is a parameter:
  \<open>run_delay d\<close> and \<open>run_round d\<close> under the simulator's random draws \<open>d\<close>.
\<close>

definition circuit_rounds ::
  "('n::finite) oscillator \<Rightarrow> nat \<Rightarrow> ('d \<Rightarrow> 'n vec list \<Rightarrow> 'n vec list) \<Rightarrow>
   ('d \<Rightarrow> 'n vec list \<Rightarrow> 'n vec list) \<Rightarrow> 'd \<times> real list \<Rightarrow> 'n vec list \<Rightarrow> complex list \<Rightarrow>
   'n mat list \<times> 'n mat list \<Rightarrow> exn + 'n vec list \<times> 'n vec list \<times> tensor2" where
  "circuit_rounds env b run_delay run_round r psi alpha Kraus =
     (case translate env b alpha of
        Inl e \<Rightarrow> Inl e
      | Inr T_a \<Rightarrow>
          let psi1 = run_delay (fst r) psi
          in if length T_a = length psi1
             then
               let psi_cached = map2 mat_vec T_a psi1;
                   psi2 = normalize (run_round (fst r) psi_cached)
               in (case measurement (snd r) psi2 [0 \<mapsto> fst Kraus, 1 \<mapsto> snd Kraus] of
                     Inl e \<Rightarrow> Inl e
                   | Inr res \<Rightarrow> Inr (fst res, psi_cached, snd res))
             else Inl InvalidArgumentError)"

text \<open>\<open>self.vec_to_complex(action[key])\<close>\<close>

definition action_amplitude :: "action \<Rightarrow> string \<Rightarrow> exn + complex list" where
  "action_amplitude action key =
     (case map_of action key of
        None \<Rightarrow> Inl (KeyError key)
      | Some x \<Rightarrow> vec_to_complex x)"

definition quantum_circuit_v1 ::
  "('n::finite) oscillator \<Rightarrow> nat \<Rightarrow> ('d \<Rightarrow> 'n vec list \<Rightarrow> 'n vec list) \<Rightarrow>
   ('d \<Rightarrow> 'n vec list \<Rightarrow> 'n vec list) \<Rightarrow> 'd \<times> real list \<Rightarrow> 'n vec list \<Rightarrow> action \<Rightarrow>
   exn + 'n vec list \<times> 'n vec list \<times> tensor2" where
  "quantum_circuit_v1 env b run_delay run_round r psi action =
     (case action_amplitude action ''alpha'' of
        Inl e \<Rightarrow> Inl e
      | Inr alpha \<Rightarrow>
     (case action_amplitude action ''beta'' of
        Inl e \<Rightarrow> Inl e
      | Inr beta \<Rightarrow>
     (case map_of action ''phi'' of
        None \<Rightarrow> Inl (KeyError ''phi'')
      | Some phi \<Rightarrow>
     (case kraus_v1 env b (concat phi) beta of
        Inl e \<Rightarrow> Inl e
      | Inr Kraus \<Rightarrow> circuit_rounds env b run_delay run_round r psi alpha Kraus))))"

definition quantum_circuit_v2 ::
  "('n::finite) oscillator \<Rightarrow> nat \<Rightarrow> ('d \<Rightarrow> 'n vec list \<Rightarrow> 'n vec list) \<Rightarrow>
   ('d \<Rightarrow> 'n vec list \<Rightarrow> 'n vec list) \<Rightarrow> 'd \<times> real list \<Rightarrow> 'n vec list \<Rightarrow> action \<Rightarrow>
   exn + 'n vec list \<times> 'n vec list \<times> tensor2" where
  "quantum_circuit_v2 env b run_delay run_round r psi action =
     (case action_amplitude action ''alpha'' of
        Inl e \<Rightarrow> Inl e
      | Inr alpha \<Rightarrow>
     (case action_amplitude action ''beta'' of
        Inl e \<Rightarrow> Inl e
      | Inr beta \<Rightarrow>
     (case map_of action ''phi'' of
        None \<Rightarrow> Inl (KeyError ''phi'')
      | Some phi \<Rightarrow>
     (case kraus_v2 env b (concat phi) beta of
        Inl e \<Rightarrow> Inl e
      | Inr Kraus \<Rightarrow> circuit_rounds env b run_delay run_round r psi alpha Kraus))))"

definition quantum_circuit_v3 ::
  "('n::finite) oscillator \<Rightarrow> nat \<Rightarrow> ('d \<Rightarrow> 'n vec list \<Rightarrow> 'n vec list) \<Rightarrow>
   ('d \<Rightarrow> 'n vec list \<Rightarrow> 'n vec list) \<Rightarrow> 'd \<times> real list \<Rightarrow> 'n vec list \<Rightarrow> action \<Rightarrow>
   exn + 'n vec list \<times> 'n vec list \<times> tensor2" where
  "quantum_circuit_v3 env b run_delay run_round r psi action =
     (case action_amplitude action ''alpha'' of
        Inl e \<Rightarrow> Inl e
      | Inr alpha \<Rightarrow>
     (case action_amplitude action ''beta'' of
        Inl e \<Rightarrow> Inl e
      | Inr beta \<Rightarrow>
     (case action_amplitude action ''epsilon'' of
        Inl e \<Rightarrow> Inl e
      | Inr epsilon \<Rightarrow>
     (case map_of action ''phi'' of
        None \<Rightarrow> Inl (KeyError ''phi'')
      | Some phi \<Rightarrow>
     (case kraus_v3 env b (concat phi) beta epsilon of
        Inl e \<Rightarrow> Inl e
      | Inr Kraus \<Rightarrow> circuit_rounds env b run_delay run_round r psi alpha Kraus)))))"

text \<open>The circuit the environment's step calls, by the configured version.\<close>

fun oscillator_circuit ::
  "('n::finite) oscillator \<Rightarrow> nat \<Rightarrow> ('d \<Rightarrow> 'n vec list \<Rightarrow> 'n vec list) \<Rightarrow>
   ('d \<Rightarrow> 'n vec list \<Rightarrow> 'n vec list) \<Rightarrow> circuit \<Rightarrow> 'd \<times> real list \<Rightarrow> 'n vec list \<Rightarrow> action \<Rightarrow>
   exn + 'n vec list \<times> 'n vec list \<times> tensor2" where
  "oscillator_circuit env b run_delay run_round circuit_v1 r psi action =
     quantum_circuit_v1 env b run_delay run_round r psi action"
| "oscillator_circuit env b run_delay run_round circuit_v2 r psi action =
     quantum_circuit_v2 env b run_delay run_round r psi action"
| "oscillator_circuit env b run_delay run_round circuit_v3 r psi action =
     quantum_circuit_v3 env b run_delay run_round r psi action"

section \<open>Concrete inputs\<close>

text \<open>
  Small concrete instances on which the theorems below are exercised: a code-state table and a
  circuit over trivial states, a constant stream of raw random draws, a reward that returns the
  measurement record, and actions for a batch of two.
\<close>

definition example_states :: "string \<Rightarrow> unit" where
  "example_states i = ()"

definition example_rng :: "nat \<Rightarrow> nat" where
  "example_rng k = 7"

definition example_qc ::
  "circuit \<Rightarrow> unit \<Rightarrow> unit list \<Rightarrow> action \<Rightarrow> exn + unit list \<times> unit list \<times> tensor2" where
  "example_qc c r psi a = Inr (psi, psi, replicate (length psi) [1])"

definition example_rw ::
  "reward_fn \<Rightarrow> unit \<Rightarrow> unit gkp \<Rightarrow> tensor2 \<Rightarrow> action \<Rightarrow> real list" where
  "example_rw f r s obs a = map hd obs"

definition example_action :: "real \<Rightarrow> action \<times> unit" where
  "example_action x =
     ([(''alpha'', [[x, 0], [0, x]]), (''beta'', [[0, 0], [0, 0]]), (''phi'', [[0], [0]])], ())"

definition example_env :: "kwarg list \<Rightarrow> unit gkp" where
  "example_env kwargs = snd (gkp_init kwargs)"


definition example_env0 :: "unit gkp" where
  "example_env0 =
     projr (reset example_states example_rng
       (example_env [Kw_batch_size (PyInt 2), Kw_episode_length 2, Kw_H 2]))"

definition example_env1 :: "unit gkp" where
  "example_env1 = example_env [Kw_batch_size (PyInt 2), Kw_max_episode_length (Some 5)]"

definition example_run :: "unit gkp" where
  "example_run =
     projr (steps example_qc example_rw example_env0
       [example_action 1, example_action 2, example_action 3])"

definition example_osc :: "2 oscillator" where
  "example_osc = define_operators 1 1"

definition example_cfg :: sim_config where
  "example_cfg = \<lparr>discrete_step_duration = 1 / 4, t_gate = 1, t_read = 1, t_delay = 1\<rparr>"



definition example_K0 :: "2 mat" where
  "example_K0 = Mat (\<lambda>i j. if i = 0 \<and> j = 0 then 1 else 0)"

definition example_K1 :: "2 mat" where
  "example_K1 = Mat (\<lambda>i j. if i = 1 \<and> j = 1 then 1 else 0)"

definition example_Kraus :: "nat \<Rightarrow> 2 mat list option" where
  "example_Kraus = [0 \<mapsto> [example_K0], 1 \<mapsto> [example_K1]]"

definition example_psi :: "2 vec list" where
  "example_psi = [Vec (\<lambda>i. if i = 0 then 3 / 5 else 4 / 5)]"

definition example_u :: "real list" where
  "example_u = [9 / 10]"

definition example_u1 :: "real list" where
  "example_u1 = [1 / 10]"

section \<open>Evaluation rules\<close>

lemmas cfg_simps =
  gkp_init_def defaults_def new_object_def N_setter_def batch_size_setter_def has_code_map_def
  init_setter_def init_modes_def reward_mode_setter_def reward_modes_def create_specs_def
  make_action_spec_def define_stabilizer_code_def example_env_def

lemmas run_simps =
  reset_def reset_state_def reset_episode_length_def reset_history_def cardinal_inits_def
  np_random_randint_def np_random_choice_def zeros_def ones_def tf_concat_def same_width_def
  py_slice_from_def
  ts_restart_def ts_transition_def ts_termination_def expand_dims_def step_def
  example_states_def example_rng_def example_qc_def example_rw_def example_action_def
  example_env0_def example_env1_def Let_def eval_nat_numeral

section \<open>Configuration\<close>

lemma setattr_keeps_vac:
  assumes "setattr s kw = (None, s')" "init_attr s = Some ''vac''"
    and "\<forall>v. kw = Kw_init v \<longrightarrow> v = PyStr ''vac''"
  shows "init_attr s' = Some ''vac''"
  using assms
  by (cases kw)
     (auto simp: N_setter_def batch_size_setter_def init_setter_def reward_mode_setter_def
        reward_modes_def init_modes_def Let_def
        split: if_splits option.splits prod.splits pyval.splits
        elim: batch_size_try.elims init_try.elims reward_mode_try.elims)

lemma reward_mode_setter_pauli_vac:
  "init_attr s = Some ''vac'' \<Longrightarrow>
   reward_mode_setter s (PyStr ''pauli'') =
     (Some (ValueError ''Reward mode not supported.''), s\<lparr>reward_mode_attr := Some ''pauli''\<rparr>)"
  by (simp add: reward_mode_setter_def reward_modes_def)

lemma setattrs_pauli_vac_fails:
  assumes "init_attr s = Some ''vac''"
    and "Kw_reward_mode (PyStr ''pauli'') \<in> set kws"
    and "\<forall>v. Kw_init v \<in> set kws \<longrightarrow> v = PyStr ''vac''"
  shows "fst (setattrs s kws) \<noteq> None"
  using assms
proof (induction kws arbitrary: s)
  case Nil
  then show ?case by simp
next
  case (Cons kw kws)
  show ?case
  proof (cases "setattr s kw")
    case (Pair e s')
    show ?thesis
    proof (cases e)
      case (Some x)
      with Pair show ?thesis by simp
    next
      case None
      have vac: "init_attr s' = Some ''vac''"
        using setattr_keeps_vac [of s kw s'] Pair None Cons.prems by auto
      have "kw \<noteq> Kw_reward_mode (PyStr ''pauli'')"
        using Pair None Cons.prems(1) by (auto simp: reward_mode_setter_pauli_vac)
      then have "Kw_reward_mode (PyStr ''pauli'') \<in> set kws"
        using Cons.prems(2) by auto
      then have "fst (setattrs s' kws) \<noteq> None"
        using Cons.IH [OF vac] Cons.prems(3) by auto
      with Pair None show ?thesis by simp
    qed
  qed
qed

lemma setattrs_append:
  "setattrs s (xs @ ys) =
     (case setattrs s xs of (None, s') \<Rightarrow> setattrs s' ys | (Some e, s') \<Rightarrow> (Some e, s'))"
  by (induction xs arbitrary: s) (auto split: prod.splits option.splits)

lemma defaults_ok:
  "setattrs (new_object :: 'v gkp) defaults =
    (None, new_object\<lparr>N_attr := Some (PyInt 100), H := 1, max_episode_length := None,
        episode_length := 20, batch_size_attr := Some 50, init_attr := Some ''vac'',
        reward_mode_attr := Some ''stabilizers'', calculate_reward := Some reward_stabilizers,
        quantum_circuit_type := ''v1''\<rparr>)"
  by (simp add: defaults_def new_object_def N_setter_def batch_size_setter_def has_code_map_def
      init_setter_def init_modes_def reward_mode_setter_def reward_modes_def)

lemma gkp_init_pauli_vac_fails:
  assumes "Kw_reward_mode (PyStr ''pauli'') \<in> set kwargs"
    and "\<forall>v. Kw_init v \<in> set kwargs \<longrightarrow> v = PyStr ''vac''"
  shows "fst (gkp_init kwargs :: exn option \<times> 'v gkp) \<noteq> None"
proof -
  define s0 :: "'v gkp" where "s0 = snd (setattrs new_object defaults)"
  have s0: "setattrs new_object defaults = (None, s0)" "init_attr s0 = Some ''vac''"
    unfolding s0_def by (simp_all add: defaults_ok)
  have "fst (setattrs s0 kwargs) \<noteq> None"
    using assms s0 by (intro setattrs_pauli_vac_fails) auto
  then show ?thesis
    by (auto simp: gkp_init_def setattrs_append s0 split: prod.splits option.splits)
qed


lemma batch_size_try_rejects:
  "(\<forall>n. sz = PyInt n \<longrightarrow> n \<le> 0) \<Longrightarrow> \<exists>e. batch_size_try s sz = (Some e, s)"
  by (cases sz) auto

lemma gkp_init_has_code_map:
  "gkp_init kwargs = (None, s') \<Longrightarrow> has_code_map s'"
  by (auto simp: gkp_init_def has_code_map_def define_stabilizer_code_def
      split: prod.splits option.splits)

text \<open>
  C9. Before the code tables exist, a batch size that is not a positive integer is rejected
  with \<open>ValueError\<close> and nothing is stored; once the code tables exist (as they do after every
  successful construction), any assignment to \<open>batch_size\<close> or \<open>N\<close> raises \<open>ValueError\<close> and
  leaves the object unchanged.
\<close>

theorem batch_size_and_N_setters_guarded:
  "(\<not> has_code_map s \<and> (\<forall>n. sz = PyInt n \<longrightarrow> n \<le> 0) \<longrightarrow>
      batch_size_setter s sz = (Some (ValueError ''Batch size should be positive integer.''), s))
   \<and> (has_code_map t \<longrightarrow>
      batch_size_setter t v = (Some (ValueError ''Cannot change batch_size after initialization.''), t)
      \<and> N_setter t v = (Some (ValueError ''Cannot change N after initialization.''), t))
   \<and> (gkp_init kwargs = (None, r) \<longrightarrow> has_code_map r)"
proof (intro conjI impI)
  assume a: "\<not> has_code_map s \<and> (\<forall>n. sz = PyInt n \<longrightarrow> n \<le> 0)"
  then obtain e where "batch_size_try s sz = (Some e, s)"
    using batch_size_try_rejects by blast
  with a show "batch_size_setter s sz = (Some (ValueError ''Batch size should be positive integer.''), s)"
    by (simp add: batch_size_setter_def)
next
  assume "has_code_map t"
  then show "batch_size_setter t v = (Some (ValueError ''Cannot change batch_size after initialization.''), t)"
    and "N_setter t v = (Some (ValueError ''Cannot change N after initialization.''), t)"
    by (simp_all add: batch_size_setter_def N_setter_def)
next
  assume "gkp_init kwargs = (None, r)"
  then show "has_code_map r" by (rule gkp_init_has_code_map)
qed

theorem batch_size_and_N_setters_guarded_witness:
  "batch_size_setter (new_object :: unit gkp) (PyInt 0)
     = (Some (ValueError ''Batch size should be positive integer.''), new_object)
   \<and> batch_size_setter (example_env []) (PyInt 3)
     = (Some (ValueError ''Cannot change batch_size after initialization.''), example_env [])
   \<and> N_setter (example_env []) (PyInt 3)
     = (Some (ValueError ''Cannot change N after initialization.''), example_env [])
   \<and> has_code_map (example_env [])"
  using batch_size_and_N_setters_guarded
    [of "new_object :: unit gkp" "PyInt 0" "example_env []" "PyInt 3" "[]" "example_env []"]
  by (simp add: cfg_simps)

section \<open>Episode bookkeeping\<close>

lemma step_counters:
  assumes "step qc rw s ar = Inr s'"
  shows "elapsed_steps s' = elapsed_steps s + 1"
    and "episode_length s' = episode_length s"
    and "episode_ended s' = (elapsed_steps s' = episode_length s)"
    and "map_option step_type (current_time_step s') = Some (if episode_ended s' then LAST else MID)"
  using assms
  by (auto simp: step_def Let_def ts_termination_def ts_transition_def
      split: prod.splits option.splits sum.splits if_splits)

lemma steps_counters:
  assumes "steps qc rw s ars = Inr s'"
  shows "elapsed_steps s' = elapsed_steps s + int (length ars)
       \<and> episode_length s' = episode_length s
       \<and> (ars \<noteq> [] \<longrightarrow> episode_ended s' = (elapsed_steps s' = episode_length s)
            \<and> map_option step_type (current_time_step s') = Some (if episode_ended s' then LAST else MID))"
  using assms
proof (induction ars arbitrary: s)
  case Nil
  then show ?case by simp
next
  case (Cons ar ars)
  then obtain s1 where s1: "step qc rw s ar = Inr s1" "steps qc rw s1 ars = Inr s'"
    by (auto split: sum.splits)
  note c = step_counters [OF s1(1)]
  note ih = Cons.IH [OF s1(2)]
  show ?case
  proof (cases "ars = []")
    case True
    with s1 c show ?thesis by simp
  next
    case False
    with ih c show ?thesis by auto
  qed
qed

lemma reset_counters:
  assumes "reset states rng s = Inr s0"
  shows "elapsed_steps s0 = 0" and "\<not> episode_ended s0"
    and "map_option step_type (current_time_step s0) = Some FIRST"
  using assms
  by (auto simp: reset_def Let_def ts_restart_def split: option.splits sum.splits)

text \<open>
  C7. After a reset the elapsed-step counter is zero and the terminal flag is clear; after
  any number \<open>n \<ge> 1\<close> of steps from there the counter is \<open>n\<close>, and the terminal flag is set,
  and the returned time step is a termination, exactly when \<open>n\<close> equals the episode length:
  on that call and on no earlier one.
\<close>

theorem step_sets_done_at_episode_length:
  assumes "reset states rng s = Inr s0"
  shows "elapsed_steps s0 = 0 \<and> \<not> episode_ended s0
       \<and> (steps qc rw s0 ars = Inr s' \<and> ars \<noteq> [] \<longrightarrow>
            elapsed_steps s' = int (length ars)
          \<and> (episode_ended s' \<longleftrightarrow> int (length ars) = episode_length s0)
          \<and> (map_option step_type (current_time_step s') = Some LAST
                \<longleftrightarrow> int (length ars) = episode_length s0))"
proof (intro conjI impI)
  show "elapsed_steps s0 = 0" "\<not> episode_ended s0"
    using reset_counters [OF assms] by simp_all
next
  assume a: "steps qc rw s0 ars = Inr s' \<and> ars \<noteq> []"
  then have st: "steps qc rw s0 ars = Inr s'" and ne: "ars \<noteq> []" by simp_all
  note c = steps_counters [OF st]
  have z: "elapsed_steps s0 = 0" using reset_counters [OF assms] by simp
  show "elapsed_steps s' = int (length ars)" using c z by simp
  show "episode_ended s' \<longleftrightarrow> int (length ars) = episode_length s0"
    using c z ne by simp
  then show "map_option step_type (current_time_step s') = Some LAST
                \<longleftrightarrow> int (length ars) = episode_length s0"
    using c ne by auto
qed

lemma example_env0_reset:
  "reset example_states example_rng
     (example_env [Kw_batch_size (PyInt 2), Kw_episode_length 2, Kw_H 2]) = Inr example_env0"
  by (simp add: cfg_simps run_simps)

theorem step_sets_done_at_episode_length_witness:
  "elapsed_steps example_env0 = 0 \<and> \<not> episode_ended example_env0
   \<and> \<not> episode_ended (projr (steps example_qc example_rw example_env0 [example_action 1]))
   \<and> episode_ended
       (projr (steps example_qc example_rw example_env0 [example_action 1, example_action 2]))"
  using
    step_sets_done_at_episode_length [OF example_env0_reset, of example_qc example_rw
      "[example_action 1]" "projr (steps example_qc example_rw example_env0 [example_action 1])"]
    step_sets_done_at_episode_length [OF example_env0_reset, of example_qc example_rw
      "[example_action 1, example_action 2]"
      "projr (steps example_qc example_rw example_env0 [example_action 1, example_action 2])"]
  by (simp add: cfg_simps run_simps)

subsection \<open>Resampling the episode length\<close>

lemma randint_unique:
  assumes "1 \<le> k" "k < m" "m \<le> 2 ^ 63"
  shows "\<exists>!u. u < nat (m - 1) \<and> np_random_randint 1 m u = Inr k"
proof
  show "nat (k - 1) < nat (m - 1) \<and> np_random_randint 1 m (nat (k - 1)) = Inr k"
    using assms by (simp add: np_random_randint_def)
next
  fix u assume "u < nat (m - 1) \<and> np_random_randint 1 m u = Inr k"
  then show "u = nat (k - 1)"
    using assms by (auto simp: np_random_randint_def split: if_splits)
qed

lemma randint_in_range:
  assumes "2 \<le> m" "m \<le> 2 ^ 63"
  shows "np_random_randint 1 m u = Inr (1 + int (u mod nat (m - 1)))"
    and "1 \<le> 1 + int (u mod nat (m - 1))" and "1 + int (u mod nat (m - 1)) < m"
proof -
  show "np_random_randint 1 m u = Inr (1 + int (u mod nat (m - 1)))"
    using assms by (simp add: np_random_randint_def)
  show "1 \<le> 1 + int (u mod nat (m - 1))" by simp
  have "u mod nat (m - 1) < nat (m - 1)" using assms(1) by simp
  then show "1 + int (u mod nat (m - 1)) < m" using assms(1) by linarith
qed

lemma reset_state_fields:
  "max_episode_length (reset_state states rng b i s) = max_episode_length s"
  "episode_length (reset_state states rng b i s) = episode_length s"
  "H (reset_state states rng b i s) = H s"
  "action_spec (reset_state states rng b i s) = action_spec s"
  by (simp_all add: reset_state_def Let_def)

lemma same_widthI:
  assumes "\<And>u rows r. u \<in> set ts \<Longrightarrow> rows \<in> set u \<Longrightarrow> r \<in> set rows \<Longrightarrow> length r = d"
  shows "same_width ts"
proof -
  let ?ws = "concat (map (\<lambda>u. concat (map (map length) u)) ts)"
  have a: "w = d" if "w \<in> set ?ws" for w
    using that assms by auto
  have "w = hd ?ws" if w: "w \<in> set ?ws" for w
  proof -
    from w have "?ws \<noteq> []" by (metis empty_iff empty_set)
    then have "hd ?ws \<in> set ?ws" by (rule hd_in_set)
    with a w show ?thesis by blast
  qed
  then show ?thesis
    unfolding same_width_def Let_def list_all_iff by blast
qed

lemma tf_concat_replicate:
  assumes "0 < n" and "\<forall>rows\<in>set T. \<forall>r\<in>set rows. length r = d"
  shows "\<exists>x. tf_concat (replicate n T) = Inr x"
proof -
  obtain n' where n: "n = Suc n'" using assms by (cases n) auto
  have "same_width (replicate n T)"
    using assms(2) by (intro same_widthI [where d = d]) auto
  then show ?thesis
    by (simp add: tf_concat_def n list_all_iff)
qed

lemma make_observation_fill:
  assumes "0 < n"
    and "\<And>key T. (key, T) \<in> set kts \<Longrightarrow> \<exists>d. \<forall>rows\<in>set T. \<forall>r\<in>set rows. length r = d"
  shows "\<exists>obs. make_observation (int n) (map (\<lambda>(key, T). (key, replicate n T)) kts) = Inr obs"
  using assms(2)
proof (induction kts)
  case Nil
  then show ?case by simp
next
  case (Cons kt kts)
  obtain key T where kt: "kt = (key, T)" by (cases kt)
  from Cons.prems [of key T] kt obtain d where T: "\<forall>rows\<in>set T. \<forall>r\<in>set rows. length r = d"
    by auto
  have sl: "py_slice_from (- int n) (replicate n T) = replicate n T"
    using assms(1) by (simp add: py_slice_from_def)
  from tf_concat_replicate [OF assms(1) T]
  obtain x where x: "tf_concat (replicate n T) = Inr x" by auto
  from Cons.IH Cons.prems obtain obs where
    "make_observation (int n) (map (\<lambda>(key, T). (key, replicate n T)) kts) = Inr obs"
    by auto
  with kt sl x show ?case by simp
qed

lemma reset_returns:
  assumes "max_episode_length s = Some m" "2 \<le> m" "m \<le> 2 ^ 63"
    and "init_attr s = Some i" "batch_size_attr s = Some bs" "1 \<le> H s"
  shows "\<exists>s'. reset states rng s = Inr s'"
proof -
  let ?s1 = "reset_state states rng (nat bs) i s"
  have e: "reset_episode_length rng ?s1
             = Inr (?s1\<lparr>episode_length := 1 + int (rng 0 mod nat (m - 1))\<rparr>)"
    using assms(1,2) randint_in_range(1) [OF assms(2,3)]
    by (simp add: reset_episode_length_def reset_state_fields)
  let ?kts = "map (\<lambda>(key, (t, d)). (key, zeros (nat bs) t d)) (action_spec s)
              @ [(''msmt'', ones (nat bs) 1 1)]"
  have h: "reset_history (nat bs) s2 = map (\<lambda>(key, T). (key, replicate (nat (H s)) T)) ?kts"
    if "H s2 = H s" "action_spec s2 = action_spec s" for s2 :: "'a gkp"
    using that by (simp add: reset_history_def)
  have n: "0 < nat (H s)" "int (nat (H s)) = H s" using assms(6) by simp_all
  have u: "\<exists>d. \<forall>rows\<in>set T. \<forall>r\<in>set rows. length r = d" if "(key, T) \<in> set ?kts" for key T
  proof -
    from that consider (a) t d where "T = zeros (nat bs) t d" | (m) "T = ones (nat bs) 1 1"
      by auto
    then show ?thesis
    proof cases
      case a
      then show ?thesis by (intro exI [of _ d]) (auto simp: zeros_def)
    next
      case m
      then show ?thesis by (intro exI [of _ 1]) (auto simp: ones_def)
    qed
  qed
  have "\<exists>obs. make_observation (int (nat (H s)))
      (map (\<lambda>(key, T). (key, replicate (nat (H s)) T)) ?kts) = Inr obs"
    by (rule make_observation_fill [OF n(1)]) (rule u)
  then obtain obs where "make_observation (H s)
      (map (\<lambda>(key, T). (key, replicate (nat (H s)) T)) ?kts) = Inr obs"
    unfolding n(2) by blast
  then show ?thesis
    using assms(4,5) e
    by (simp add: reset_def Let_def h reset_state_fields)
qed

text \<open>
  C10, as the claim states it, fails: \<open>max_episode_length = 1\<close> is not \<open>None\<close>, yet the reset
  raises (the sampler's range is empty); \<open>max_episode_length = 0\<close> is not \<open>None\<close>, yet
  the guard \<open>if self.max_episode_length:\<close> is false, nothing is resampled and the episode
  length stays at its configured value 20, which is not below the maximum; and
  \<open>max_episode_length = 2 ^ 63 + 1\<close> is not \<open>None\<close>, yet the reset raises (the bound is outside
  the sampler's 64-bit range).
\<close>

theorem reset_episode_length_counterexample:
  "reset example_states example_rng (example_env [Kw_max_episode_length (Some 1)])
     = Inl (ValueError ''low >= high'')
   \<and> \<not> isl (reset example_states example_rng (example_env [Kw_max_episode_length (Some 0)]))
   \<and> episode_length
       (projr (reset example_states example_rng (example_env [Kw_max_episode_length (Some 0)])))
     = 20
   \<and> reset example_states example_rng
         (example_env [Kw_max_episode_length (Some (2 ^ 63 + 1))])
     = Inl (ValueError ''high is out of bounds for int64'')"
  by (simp add: cfg_simps run_simps)

text \<open>
  C10, amended. When \<open>max_episode_length\<close> is an integer \<open>m\<close> with \<open>2 \<le> m \<le> 2 ^ 63\<close> (the
  range the 64-bit sampler accepts), the reset of an environment with its initialization
  mode, batch size and a horizon of at least 1 in place returns, and it has resampled the
  episode length: it is the sampler's value \<open>1 + (u mod (m - 1))\<close> for the raw draw \<open>u\<close>,
  lies between 1 and \<open>m - 1\<close> inclusive, and every value in that range is the image of
  exactly one raw draw below \<open>m - 1\<close> (the sampler is uniform on the range).
\<close>

theorem reset_episode_length_below_max:
  assumes "max_episode_length s = Some m" and "2 \<le> m" and "m \<le> 2 ^ 63"
    and "init_attr s = Some i" and "batch_size_attr s = Some bs" and "1 \<le> H s"
  shows "(\<exists>s'. reset states rng s = Inr s'
            \<and> episode_length s' = 1 + int (rng 0 mod nat (m - 1))
            \<and> 1 \<le> episode_length s' \<and> episode_length s' < m)
       \<and> (\<forall>k. 1 \<le> k \<and> k < m \<longrightarrow> (\<exists>!u. u < nat (m - 1) \<and> np_random_randint 1 m u = Inr k))"
proof -
  from reset_returns [OF assms] obtain s' where r: "reset states rng s = Inr s'" ..
  have e: "episode_length s' = 1 + int (rng 0 mod nat (m - 1))"
    using assms(1,2) r randint_in_range(1) [OF assms(2,3)]
    by (auto simp: reset_def reset_episode_length_def reset_state_fields
        Let_def split: option.splits sum.splits if_splits)
  from randint_in_range(2,3) [OF assms(2,3)] e r randint_unique [OF _ _ assms(3)]
  show ?thesis by auto
qed

theorem reset_episode_length_below_max_witness:
  "max_episode_length example_env1 = Some 5
   \<and> \<not> isl (reset example_states example_rng example_env1)
   \<and> episode_length (projr (reset example_states example_rng example_env1)) = 4"
proof -
  have m: "max_episode_length example_env1 = Some 5"
    by code_simp
  have i: "init_attr example_env1 = Some ''vac''" by code_simp
  have b: "batch_size_attr example_env1 = Some 2" by code_simp
  have h: "1 \<le> H example_env1" by code_simp
  have v: "1 + int (example_rng 0 mod nat (5 - 1)) = 4"
    by (simp add: example_rng_def)
  from reset_episode_length_below_max [OF m _ _ i b h, of example_states example_rng] v m
  show ?thesis
    by auto
qed

section \<open>History and observations\<close>

lemma history_append_map:
  assumes "distinct ks" "a \<in> set ks"
  shows "history_append (map (\<lambda>k. (k, f k)) ks) a t
           = Inr (map (\<lambda>k. (k, (f(a := f a @ [t])) k)) ks)"
  using assms
proof (induction ks)
  case Nil
  then show ?case by simp
next
  case (Cons k ks)
  show ?case
  proof (cases "k = a")
    case True
    then have "a \<notin> set ks" using Cons.prems by simp
    then have "map (\<lambda>k. (k, (f(a := f a @ [t])) k)) ks = map (\<lambda>k. (k, f k)) ks"
      by (intro map_cong) auto
    with True show ?thesis by simp
  next
    case False
    then have "a \<in> set ks" "distinct ks" using Cons.prems by simp_all
    with Cons.IH False show ?thesis by simp
  qed
qed

lemma append_actions_map:
  assumes "distinct ks" "distinct (map fst a)" "set (map fst a) \<subseteq> set ks"
  shows "append_actions (map (\<lambda>k. (k, f k)) ks) a
           = Inr (map (\<lambda>k. (k, case map_of a k of None \<Rightarrow> f k
                                 | Some x \<Rightarrow> f k @ [expand_dims x])) ks)"
  using assms
proof (induction a arbitrary: f)
  case Nil
  then show ?case by simp
next
  case (Cons kx a)
  obtain k0 x where kx: "kx = (k0, x)" by (cases kx)
  have k0: "k0 \<in> set ks" "k0 \<notin> fst ` set a" "distinct (map fst a)" "set (map fst a) \<subseteq> set ks"
    using Cons.prems kx by auto
  let ?f' = "f(k0 := f k0 @ [expand_dims x])"
  have none: "map_of a k0 = None" using k0(2) by (simp add: map_of_eq_None_iff)
  have "append_actions (map (\<lambda>k. (k, f k)) ks) (kx # a)
          = append_actions (map (\<lambda>k. (k, ?f' k)) ks) a"
    using history_append_map [OF Cons.prems(1) k0(1), of f "expand_dims x"] kx by simp
  also have "\<dots> = Inr (map (\<lambda>k. (k, case map_of a k of None \<Rightarrow> ?f' k
                                 | Some y \<Rightarrow> ?f' k @ [expand_dims y])) ks)"
    using Cons.IH [OF Cons.prems(1) k0(3) k0(4)] .
  also have "(map (\<lambda>k. (k, case map_of a k of None \<Rightarrow> ?f' k
                                 | Some y \<Rightarrow> ?f' k @ [expand_dims y])) ks)
     = (map (\<lambda>k. (k, case map_of (kx # a) k of None \<Rightarrow> f k
                                 | Some y \<Rightarrow> f k @ [expand_dims y])) ks)"
    using none kx by (intro map_cong) (auto split: option.splits)
  finally show ?case .
qed

lemma make_observation_map:
  assumes "make_observation h (map (\<lambda>k. (k, f k)) ks) = Inr obs" "k \<in> set ks"
  shows "\<exists>t. tf_concat (py_slice_from (- h) (f k)) = Inr t \<and> map_of obs k = Some t"
  using assms
proof (induction ks arbitrary: obs)
  case Nil
  then show ?case by simp
next
  case (Cons k' ks)
  from Cons.prems(1) obtain t obs' where
    t: "tf_concat (py_slice_from (- h) (f k')) = Inr t"
    and o: "make_observation h (map (\<lambda>k. (k, f k)) ks) = Inr obs'"
    and obs: "obs = (k', t) # obs'"
    by (auto split: sum.splits)
  show ?case
  proof (cases "k = k'")
    case True
    with t obs show ?thesis by simp
  next
    case False
    then have "k \<in> set ks" using Cons.prems(2) by simp
    from Cons.IH [OF o this] False obs show ?thesis by simp
  qed
qed

lemma tf_concat_rows:
  assumes "tf_concat ts = Inr t" "list_all (\<lambda>u. length u = b) ts" "i < b"
    and "list_all (\<lambda>u. length (u ! i) = 1) ts"
  shows "length t = b \<and> t ! i = map (\<lambda>u. hd (u ! i)) ts"
proof -
  from assms(1) obtain u0 us where ts: "ts = u0 # us"
    by (cases ts) (auto simp: tf_concat_def)
  then have l0: "length u0 = b" using assms(2) by simp
  have t: "t = map (\<lambda>b. concat (map (\<lambda>u. u ! b) ts)) [0..<b]"
    using assms(1) l0 ts by (auto simp: tf_concat_def split: if_splits)
  have "concat (map (\<lambda>u. u ! i) ts) = map (\<lambda>u. hd (u ! i)) ts"
    using assms(4)
  proof (induction ts)
    case Nil
    then show ?case by simp
  next
    case (Cons u us)
    then have "length (u ! i) = 1" by simp
    then obtain r where "u ! i = [r]" by (cases "u ! i") auto
    with Cons show ?case by simp
  qed
  with t assms(3) show ?thesis by simp
qed

lemma hist_keys_spec:
  "distinct (hist_keys (make_action_spec q))"
  "''msmt'' \<notin> set (map fst (make_action_spec q))"
  by (auto simp: hist_keys_def make_action_spec_def)

lemma reset_history_map:
  assumes "action_spec s = make_action_spec q"
  shows "reset_history b s
     = map (\<lambda>k. (k, replicate (nat (H s)) (fill_tensor b (make_action_spec q) k)))
         (hist_keys (make_action_spec q))"
  using assms
  by (simp add: reset_history_def hist_keys_def make_action_spec_def fill_tensor_def fill_row_def
      zeros_def ones_def)

lemma reset_inv:
  assumes "reset states rng s = Inr s0" "action_spec s = make_action_spec q"
    "batch_size_attr s = Some bs"
  shows "history s0 = map (\<lambda>k. (k, replicate (nat (H s)) (fill_tensor (nat bs) (make_action_spec q) k)))
         (hist_keys (make_action_spec q))"
    and "H s0 = H s" and "obs_ok s0"
proof -
  from assms(1,3) obtain i s1 obs where
    s1: "reset_episode_length rng (reset_state states rng (nat bs) i s) = Inr s1"
    and s0: "s0 = s1\<lparr>episode_ended := False, elapsed_steps := 0, episode_return := None,
                      info := None,
                      history := reset_history (nat bs) (s1\<lparr>episode_ended := False, elapsed_steps := 0, episode_return := None,
                      info := None\<rparr>),
                      current_time_step := Some (ts_restart obs (nat bs))\<rparr>"
    and ob: "make_observation (H s1) (reset_history (nat bs) (s1\<lparr>episode_ended := False, elapsed_steps := 0, episode_return := None,
                      info := None\<rparr>)) = Inr obs"
    by (auto simp: reset_def Let_def split: option.splits sum.splits)
  have f: "H s1 = H s" "action_spec s1 = action_spec s"
    using s1
    by (auto simp: reset_episode_length_def reset_state_def Let_def
        split: option.splits sum.splits if_splits)
  have rh: "reset_history (nat bs) (s1\<lparr>episode_ended := False, elapsed_steps := 0, episode_return := None,
                      info := None\<rparr>) = map (\<lambda>k. (k, replicate (nat (H s)) (fill_tensor (nat bs) (make_action_spec q) k)))
         (hist_keys (make_action_spec q))"
    using reset_history_map [of "s1\<lparr>episode_ended := False, elapsed_steps := 0, episode_return := None,
                      info := None\<rparr>" q "nat bs"] f assms(2) by simp
  show "history s0 = map (\<lambda>k. (k, replicate (nat (H s)) (fill_tensor (nat bs) (make_action_spec q) k)))
         (hist_keys (make_action_spec q))"
    using s0 rh by simp
  show "H s0 = H s" using s0 f by simp
  show "obs_ok s0" using s0 ob f by (simp add: obs_ok_def ts_restart_def)
qed

lemma step_inv:
  assumes st: "step qc rw s ar = Inr s'"
    and hist: "history s = map (\<lambda>k. (k, F k)) (hist_keys spec)"
    and d: "distinct (hist_keys spec)"
    and wf: "wf_action b spec (fst ar)"
  shows "history s' = map (\<lambda>k. (k, F k @ [expand_dims
            (if k = ''msmt'' then measured qc s ar else the (map_of (fst ar) k))])) (hist_keys spec)"
    and "H s' = H s" and "obs_ok s'"
proof -
  obtain a r where ar: "ar = (a, r)" by (cases ar)
  from st ar obtain c psi cached obs h1 h2 obsv f where
    c: "quantum_circuit s = Some c"
    and q: "qc c r (state s) a = Inr (psi, cached, obs)"
    and h1: "append_actions (history s) a = Inr h1"
    and h2: "history_append h1 ''msmt'' (expand_dims obs) = Inr h2"
    and ob: "make_observation (H s) h2 = Inr obsv"
    and s': "history s' = h2" "H s' = H s"
      "map_option observation (current_time_step s') = Some obsv"
    by (auto simp: step_def Let_def ts_termination_def ts_transition_def
        split: option.splits sum.splits prod.splits if_splits)
  have wfa: "distinct (map fst a)" "set (map fst a) = set (map fst spec)"
    using wf ar by (simp_all add: wf_action_def)
  have sub: "set (map fst a) \<subseteq> set (hist_keys spec)"
    using wfa by (auto simp: hist_keys_def)
  have m: "''msmt'' \<in> set (hist_keys spec)" "''msmt'' \<notin> set (map fst spec)"
    using d by (auto simp: hist_keys_def)
  let ?G = "\<lambda>k. case map_of a k of None \<Rightarrow> F k | Some x \<Rightarrow> F k @ [expand_dims x]"
  have e1: "h1 = map (\<lambda>k. (k, ?G k)) (hist_keys spec)"
    using h1 append_actions_map [OF d wfa(1) sub, of F] hist by simp
  have e2: "h2 = map (\<lambda>k. (k, (?G(''msmt'' := ?G ''msmt'' @ [expand_dims obs])) k)) (hist_keys spec)"
    using h2 history_append_map [OF d m(1), of ?G "expand_dims obs"] e1 by simp
  have none: "map_of a ''msmt'' = None"
    using m(2) wfa(2) by (metis map_of_eq_None_iff set_map)
  have ms: "measured qc s ar = obs"
    using c q ar by (simp add: measured_def)
  have "h2 = map (\<lambda>k. (k, F k @ [expand_dims
            (if k = ''msmt'' then measured qc s ar else the (map_of (fst ar) k))])) (hist_keys spec)"
    unfolding e2
  proof (intro map_cong refl)
    fix k assume k: "k \<in> set (hist_keys spec)"
    show "(k, (?G(''msmt'' := ?G ''msmt'' @ [expand_dims obs])) k)
        = (k, F k @ [expand_dims (if k = ''msmt'' then measured qc s ar else the (map_of (fst ar) k))])"
    proof (cases "k = ''msmt''")
      case True
      with none ms show ?thesis by simp
    next
      case False
      with k have "k \<in> set (map fst a)" using wfa(2) by (auto simp: hist_keys_def)
      then obtain x where "map_of a k = Some x"
        by (metis map_of_eq_None_iff not_None_eq set_map)
      with False ar show ?thesis by simp
    qed
  qed
  with s' show "history s' = map (\<lambda>k. (k, F k @ [expand_dims
            (if k = ''msmt'' then measured qc s ar else the (map_of (fst ar) k))])) (hist_keys spec)"
    by simp
  show "H s' = H s" by fact
  show "obs_ok s'" using s' ob by (auto simp: obs_ok_def split: option.splits)
qed

lemma steps_inv:
  assumes "steps qc rw s ars = Inr s'"
    and "history s = map (\<lambda>k. (k, F k)) (hist_keys spec)"
    and "distinct (hist_keys spec)"
    and "list_all (\<lambda>ar. wf_action b spec (fst ar)) ars"
    and "obs_ok s"
  shows "history s' = map (\<lambda>k. (k, F k @ map expand_dims (entries qc rw s ars k))) (hist_keys spec)
       \<and> H s' = H s \<and> obs_ok s'"
  using assms
proof (induction ars arbitrary: s F)
  case Nil
  then show ?case by simp
next
  case (Cons ar ars)
  from Cons.prems(1) obtain s1 where s1: "step qc rw s ar = Inr s1" "steps qc rw s1 ars = Inr s'"
    by (auto split: sum.splits)
  have wf: "wf_action b spec (fst ar)" "list_all (\<lambda>ar. wf_action b spec (fst ar)) ars"
    using Cons.prems(4) by simp_all
  note i1 = step_inv [OF s1(1) Cons.prems(2) Cons.prems(3) wf(1)]
  from Cons.IH [OF s1(2) i1(1) Cons.prems(3) wf(2) i1(3)] i1(2) s1(1)
  show ?case by simp
qed

lemma entries_length:
  "steps qc rw s ars = Inr s' \<Longrightarrow> length (entries qc rw s ars k) = length ars"
  by (induction ars arbitrary: s) (auto split: sum.splits)

lemma entries_actions:
  "steps qc rw s ars = Inr s' \<Longrightarrow> k \<noteq> ''msmt'' \<Longrightarrow>
   entries qc rw s ars k = map (\<lambda>ar. the (map_of (fst ar) k)) ars"
  by (induction ars arbitrary: s) (auto split: sum.splits)

lemma wf_action_component:
  assumes "wf_action b spec a" "k \<in> set (map fst spec)"
  shows "\<exists>td. map_of spec k = Some td \<and> is_array b (snd td) (the (map_of a k))"
proof -
  from assms have "k \<in> set (map fst a)" by (simp add: wf_action_def)
  then obtain x where x: "map_of a k = Some x"
    by (metis map_of_eq_None_iff not_None_eq set_map)
  then have kin: "(k, x) \<in> set a" by (rule map_of_SomeD)
  from assms(1) have all:
    "\<forall>kx\<in>set a. case map_of spec (fst kx) of None \<Rightarrow> False | Some td \<Rightarrow> is_array b (snd td) (snd kx)"
    by (simp add: wf_action_def list_all_iff)
  from bspec [OF all kin]
  have "case map_of spec k of None \<Rightarrow> False | Some td \<Rightarrow> is_array b (snd td) x"
    by (cases "map_of spec k") simp_all
  with x show ?thesis by (auto split: option.splits)
qed

lemma fill_row_length:
  "length (fill_tensor b spec k) = b" "i < b \<Longrightarrow> fill_tensor b spec k ! i = [fill_row spec k]"
  by (simp_all add: fill_tensor_def)

lemma py_slice_last:
  assumes "0 < h" "length xs = nat h + n"
  shows "py_slice_from (- h) xs = drop n xs"
proof -
  have "nat (max (int (length xs) + - h) 0) = n" using assms by simp
  with assms(1) show ?thesis by (simp add: py_slice_from_def)
qed

text \<open>
  C8. For an environment whose action spec is the one of its circuit type: after a reset and
  any number \<open>n \<ge> 0\<close> of steps with actions that follow the spec (each component an array
  of the batch size and of the width the spec gives it) and a circuit that returns
  measurement records of shape \<open>[batch, 1]\<close>, the horizon \<open>H\<close> is at least 1 and the returned
  observation holds, for each component (\<open>alpha\<close>, \<open>beta\<close>, \<open>phi\<close>, \<open>msmt\<close>, and \<open>epsilon\<close> for
  circuit v3) and each batch element, exactly \<open>H\<close> rows of the component's width: the last
  \<open>H\<close> of the chronological sequence made of \<open>H\<close> fill rows (zeros for an action component,
  \<open>[1]\<close> for the measurement) followed by the \<open>n\<close> actions or measurement outcomes so far.
\<close>

theorem observation_history_horizon:
  assumes spec: "action_spec s = make_action_spec q"
    and bs: "batch_size_attr s = Some bs"
    and rs: "reset states rng s = Inr s0"
    and st: "steps qc rw s0 ars = Inr s'"
    and wf: "list_all (\<lambda>ar. wf_action (nat bs) (make_action_spec q) (fst ar)) ars"
    and ms: "list_all (is_array (nat bs) 1) (entries qc rw s0 ars ''msmt'')"
    and k: "k \<in> set (hist_keys (make_action_spec q))"
    and i: "i < nat bs"
  shows "1 \<le> H s
     \<and> (\<exists>t. map_of (observation (the (current_time_step s'))) k = Some t
           \<and> length t = nat bs
           \<and> length (t ! i) = nat (H s)
           \<and> list_all (\<lambda>row. length row = length (fill_row (make_action_spec q) k)) (t ! i)
           \<and> t ! i = drop (length ars)
                 (replicate (nat (H s)) (fill_row (make_action_spec q) k)
                  @ map (\<lambda>x. x ! i) (entries qc rw s0 ars k)))
     \<and> (k \<noteq> ''msmt'' \<longrightarrow> entries qc rw s0 ars k = map (\<lambda>ar. the (map_of (fst ar) k)) ars)"
proof -
  let ?spec = "make_action_spec q"
  let ?b = "nat bs"
  let ?h = "nat (H s)"
  let ?F = "\<lambda>k. replicate ?h (fill_tensor ?b ?spec k)"
  let ?E = "entries qc rw s0 ars"
  note r = reset_inv [OF rs spec bs]
  have d: "distinct (hist_keys ?spec)" by (rule hist_keys_spec)
  \<comment> \<open>the horizon is positive, or the reset would have failed\<close>
  have hpos: "1 \<le> H s"
  proof (rule ccontr)
    assume "\<not> 1 \<le> H s"
    then have z: "?h = 0" "\<not> - H s0 < 0" "- H s0 \<ge> 0" using r(2) by simp_all
    from r(3) obtain ts where ts: "current_time_step s0 = Some ts"
      "make_observation (H s0) (history s0) = Inr (observation ts)"
      by (auto simp: obs_ok_def split: option.splits)
    from make_observation_map [of "H s0" ?F "hist_keys ?spec" "observation ts" k] ts(2) r(1) k
    obtain t where "tf_concat (py_slice_from (- H s0) (?F k)) = Inr t" by auto
    with z show False by (simp add: py_slice_from_def tf_concat_def)
  qed
  note inv = steps_inv [OF st r(1) d wf r(3)]
  then have hist: "history s' = map (\<lambda>k. (k, ?F k @ map expand_dims (?E k))) (hist_keys ?spec)"
    and hs: "H s' = H s0" and ok: "obs_ok s'" by simp_all
  from ok obtain ts where ts: "current_time_step s' = Some ts"
      "make_observation (H s') (history s') = Inr (observation ts)"
    by (auto simp: obs_ok_def split: option.splits)
  from make_observation_map [of "H s'" "\<lambda>k. ?F k @ map expand_dims (?E k)" "hist_keys ?spec"
      "observation ts" k] ts(2) hist k
  obtain t where t: "tf_concat (py_slice_from (- H s') (?F k @ map expand_dims (?E k))) = Inr t"
    and mo: "map_of (observation ts) k = Some t" by auto
  have len: "length (?E k) = length ars" using st by (rule entries_length)
  have act: "k \<noteq> ''msmt'' \<Longrightarrow> ?E k = map (\<lambda>ar. the (map_of (fst ar) k)) ars"
    using st by (rule entries_actions)
  have sl: "py_slice_from (- H s') (?F k @ map expand_dims (?E k))
          = drop (length ars) (?F k @ map expand_dims (?E k))"
    using hpos hs r(2) len by (intro py_slice_last) simp_all
  \<comment> \<open>every entry is an array with one row of the component's width for each batch element\<close>
  have ar: "list_all (is_array ?b (length (fill_row ?spec k))) (?E k)"
  proof (cases "k = ''msmt''")
    case True
    with ms show ?thesis by (simp add: fill_row_def)
  next
    case False
    then have kk: "k \<in> set (map fst ?spec)" using k by (simp add: hist_keys_def)
    have "is_array ?b (length (fill_row ?spec k)) (the (map_of (fst ar) k))" if "ar \<in> set ars" for ar
    proof -
      from that wf have "wf_action ?b ?spec (fst ar)" by (simp add: list_all_iff)
      from wf_action_component [OF this kk] False show ?thesis
        by (auto simp: fill_row_def)
    qed
    then have "list_all (is_array ?b (length (fill_row ?spec k))) (map (\<lambda>ar. the (map_of (fst ar) k)) ars)"
      by (simp add: list_all_iff)
    with act [OF False] show ?thesis by simp
  qed
  then have el: "list_all (\<lambda>x. length x = ?b) (?E k)"
    by (simp add: list_all_iff is_array_def)
  have a1: "list_all (\<lambda>u. length u = ?b) (?F k @ map expand_dims (?E k))"
    using el by (auto simp: list_all_iff fill_row_length expand_dims_def)
  have a2: "list_all (\<lambda>u. length (u ! i) = 1) (?F k @ map expand_dims (?E k))"
    using el i by (auto simp: list_all_iff fill_row_length expand_dims_def)
  have d1: "list_all (\<lambda>u. length u = ?b) (drop (length ars) (?F k @ map expand_dims (?E k)))"
    using a1 unfolding list_all_iff by (meson in_set_dropD)
  have d2: "list_all (\<lambda>u. length (u ! i) = 1) (drop (length ars) (?F k @ map expand_dims (?E k)))"
    using a2 unfolding list_all_iff by (meson in_set_dropD)
  from tf_concat_rows [OF t [unfolded sl] d1 i d2]
  have tl: "length t = ?b"
    and ti: "t ! i = map (\<lambda>u. hd (u ! i)) (drop (length ars) (?F k @ map expand_dims (?E k)))"
    by simp_all
  have rows: "map (\<lambda>u. hd (u ! i)) (?F k @ map expand_dims (?E k))
        = replicate ?h (fill_row ?spec k) @ map (\<lambda>x. x ! i) (?E k)"
  proof -
    have "map (\<lambda>u. hd (u ! i)) (map expand_dims (?E k)) = map (\<lambda>x. x ! i) (?E k)"
      using el i by (auto simp: list_all_iff expand_dims_def)
    then show ?thesis using i by (simp add: fill_row_length)
  qed
  have ti': "t ! i = drop (length ars) (replicate ?h (fill_row ?spec k) @ map (\<lambda>x. x ! i) (?E k))"
    unfolding ti drop_map [symmetric] rows ..
  have tlen: "length (t ! i) = ?h" unfolding ti' using len by simp
  have "length row = length (fill_row ?spec k)"
    if "row \<in> set (replicate ?h (fill_row ?spec k) @ map (\<lambda>x. x ! i) (?E k))" for row
  proof -
    from that consider "row = fill_row ?spec k" | x where "x \<in> set (?E k)" "row = x ! i"
      by auto
    then show ?thesis
    proof cases
      case 1
      then show ?thesis by simp
    next
      case 2
      with ar have "is_array ?b (length (fill_row ?spec k)) x" by (simp add: list_all_iff)
      with i 2 show ?thesis by (simp add: is_array_def list_all_length)
    qed
  qed
  then have tw: "list_all (\<lambda>row. length row = length (fill_row ?spec k)) (t ! i)"
    unfolding ti' list_all_iff by (meson in_set_dropD)
  show ?thesis using hpos mo tl tlen tw ti' ts(1) act by auto
qed

theorem observation_history_horizon_witness:
  "H (example_env [Kw_batch_size (PyInt 2), Kw_episode_length 2, Kw_H 2]) = 2
   \<and> the (map_of (observation (the (current_time_step example_run))) ''alpha'') ! 0
       = [[2, 0], [3, 0]]
   \<and> the (map_of (observation (the (current_time_step example_run))) ''msmt'') ! 1
       = [[1], [1]]"
proof -
  let ?s = "example_env [Kw_batch_size (PyInt 2), Kw_episode_length 2, Kw_H 2]"
  let ?ars = "[example_action 1, example_action 2, example_action 3]"
  have spec: "action_spec ?s = make_action_spec ''v1''" by code_simp
  have bs: "batch_size_attr ?s = Some 2" by code_simp
  have st: "steps example_qc example_rw example_env0 ?ars = Inr example_run"
    by code_simp
  have wf: "list_all (\<lambda>ar. wf_action (nat 2) (make_action_spec ''v1'') (fst ar)) ?ars"
    by code_simp
  have ms: "list_all (is_array (nat 2) 1) (entries example_qc example_rw example_env0 ?ars ''msmt'')"
    by code_simp
  have k1: "''alpha'' \<in> set (hist_keys (make_action_spec ''v1''))" by code_simp
  have k2: "''msmt'' \<in> set (hist_keys (make_action_spec ''v1''))" by code_simp
  have h: "H ?s = 2" by code_simp
  have e1: "drop (length ?ars) (replicate (nat 2) (fill_row (make_action_spec ''v1'') ''alpha'')
              @ map (\<lambda>x. x ! 0) (entries example_qc example_rw example_env0 ?ars ''alpha''))
            = [[2, 0], [3, 0]]" by code_simp
  have e2: "drop (length ?ars) (replicate (nat 2) (fill_row (make_action_spec ''v1'') ''msmt'')
              @ map (\<lambda>x. x ! 1) (entries example_qc example_rw example_env0 ?ars ''msmt''))
            = [[1], [1]]" by code_simp
  from observation_history_horizon [OF spec bs example_env0_reset st wf ms k1, of 0]
  obtain t1 where t1: "map_of (observation (the (current_time_step example_run))) ''alpha'' = Some t1"
    "t1 ! 0 = drop (length ?ars) (replicate (nat (H ?s)) (fill_row (make_action_spec ''v1'') ''alpha'')
              @ map (\<lambda>x. x ! 0) (entries example_qc example_rw example_env0 ?ars ''alpha''))"
    by auto
  from observation_history_horizon [OF spec bs example_env0_reset st wf ms k2, of 1]
  obtain t2 where t2: "map_of (observation (the (current_time_step example_run))) ''msmt'' = Some t2"
    "t2 ! 1 = drop (length ?ars) (replicate (nat (H ?s)) (fill_row (make_action_spec ''v1'') ''msmt'')
              @ map (\<lambda>x. x ! 1) (entries example_qc example_rw example_env0 ?ars ''msmt''))"
    by auto
  show ?thesis
    unfolding t1(1) t2(1) option.sel t1(2) t2(2) h using e1 e2 by simp
qed

section \<open>Matrix algebra\<close>

lemma adjoint_simps:
  "adjoint (A + B) = adjoint A + adjoint B"
  "adjoint (A - B) = adjoint A - adjoint B"
  "adjoint (- A) = - adjoint A"
  "adjoint (smult c A) = smult (cnj c) (adjoint A)"
  "adjoint (adjoint A) = A"
  "adjoint (0 :: 'n mat) = 0"
  "adjoint (1 :: 'n mat) = 1"
  for A B :: "'n::finite mat"
  by (auto simp: mat_eq_iff)

lemma adjoint_mult: "adjoint (A * B) = adjoint B * adjoint A"
  for A B :: "'n::finite mat"
  by (simp add: mat_eq_iff mult.commute)

lemma smult_2: "smult 2 A = A + A"
  by (simp add: mat_eq_iff)

lemma adjoint_smult_self:
  "adjoint (smult c W) * smult c W = smult (cnj c * c) (adjoint W * W)"
  for W :: "'n::finite mat"
  by (simp add: adjoint_simps(4) smult_mult smult_simps(5) mult.commute)

lemma smult_ii_square: "smult \<i> D * smult \<i> D = - (D * D)"
  for D :: "'n::finite mat"
  by (simp add: smult_mult smult_simps(5)) (simp add: mat_eq_iff)

lemma four_ones: "(1 :: 'n::finite mat) + 1 + (1 + 1) = smult 4 1"
  by (simp only: mat_eq_iff ent_simps ent_smult) simp

lemma pair_sum:
  fixes X Z :: "'n::finite mat"
  shows "adjoint (X + Z) * (X + Z) + adjoint (X - Z) * (X - Z)
       = smult 2 (adjoint X * X + adjoint Z * Z)"
  by (simp add: adjoint_simps(1,2) smult_2 algebra_simps)

lemma kraus_pair_sum:
  fixes X Y :: "'n::finite mat"
  assumes "cnj ph * ph = 1"
  shows "adjoint (smult c (X + smult ph Y)) * smult c (X + smult ph Y)
       + adjoint (smult c (X - smult ph Y)) * smult c (X - smult ph Y)
       = smult (2 * (cnj c * c)) (adjoint X * X + adjoint Y * Y)"
proof -
  have "ph * cnj ph = 1" using assms by (simp add: mult.commute)
  then have z: "adjoint (smult ph Y) * smult ph Y = adjoint Y * Y"
    by (simp add: adjoint_simps smult_mult smult_simps)
  have "adjoint (smult c (X + smult ph Y)) * smult c (X + smult ph Y)
       + adjoint (smult c (X - smult ph Y)) * smult c (X - smult ph Y)
     = smult (cnj c * c) (adjoint (X + smult ph Y) * (X + smult ph Y)
         + adjoint (X - smult ph Y) * (X - smult ph Y))"
    by (simp only: adjoint_smult_self) (simp only: smult_simps(1))
  also have "\<dots> = smult (cnj c * c) (smult 2 (adjoint X * X + adjoint Y * Y))"
    by (simp only: pair_sum z)
  finally show ?thesis by (simp add: smult_simps(5) mult.commute)
qed

lemma chunk_sum:
  fixes B E :: "'n::finite mat"
  assumes B: "unitary B" and E: "unitary E"
  defines "Bd \<equiv> adjoint B" and "Ed \<equiv> adjoint E"
  defines "c1 \<equiv> smult \<i> (Bd * (E * B)) - smult \<i> (Bd * (Ed * B)) + Bd * (Ed * Bd) + Bd * (E * Bd)"
  defines "c2 \<equiv> smult \<i> (B * (Ed * Bd)) - smult \<i> (B * (E * Bd)) + B * (Ed * B) + B * (E * B)"
  shows "adjoint c1 * c1 + adjoint c2 * c2 = smult 8 1"
proof -
  define X where "X = E + Ed"
  define Y where "Y = smult \<i> (E - Ed)"
  have u: "Bd * B = 1" "B * Bd = 1" "Ed * E = 1" "E * Ed = 1"
    using B E by (simp_all add: unitary_def Bd_def Ed_def)
  have aB: "adjoint B = Bd" "adjoint Bd = B" "adjoint E = Ed" "adjoint Ed = E"
    by (simp_all add: Bd_def Ed_def adjoint_simps)
  have aX: "adjoint X = X" by (simp add: X_def adjoint_simps aB add.commute)
  have aY: "adjoint Y = Y" by (simp add: Y_def adjoint_simps aB smult_simps)
  have XY: "X * Y = Y * X"
  proof -
    have "(E + Ed) * (E - Ed) = E * E - Ed * Ed" by (simp add: algebra_simps u)
    moreover have "(E - Ed) * (E + Ed) = E * E - Ed * Ed" by (simp add: algebra_simps u)
    ultimately show ?thesis by (simp add: X_def Y_def smult_mult)
  qed
  have sq: "X * X + Y * Y = smult 4 1"
  proof -
    have "Y * Y = - ((E - Ed) * (E - Ed))"
      unfolding Y_def by (rule smult_ii_square)
    then have "X * X + Y * Y = E * Ed + E * Ed + (Ed * E + Ed * E)"
      by (simp add: X_def algebra_simps)
    then show ?thesis by (simp only: u four_ones)
  qed
  have c1: "c1 = Bd * (Y * B + X * Bd)"
    by (simp add: c1_def X_def Y_def smult_mult smult_simps(1,2) algebra_simps)
  have c2: "c2 = B * (X * B - Y * Bd)"
    by (simp add: c2_def X_def Y_def smult_mult smult_simps(1,2) algebra_simps)
  have a1: "adjoint c1 = (Bd * Y + B * X) * B"
    by (simp add: c1 adjoint_mult adjoint_simps aB aX aY)
  have a2: "adjoint c2 = (Bd * X - B * Y) * Bd"
    by (simp add: c2 adjoint_mult adjoint_simps aB aX aY)
  have p1: "adjoint c1 * c1 = (Bd * Y + B * X) * (Y * B + X * Bd)"
  proof -
    have "adjoint c1 * c1 = (Bd * Y + B * X) * ((B * Bd) * (Y * B + X * Bd))"
      by (simp only: a1) (subst c1, simp only: mult.assoc)
    then show ?thesis by (simp add: u)
  qed
  have p2: "adjoint c2 * c2 = (Bd * X - B * Y) * (X * B - Y * Bd)"
  proof -
    have "adjoint c2 * c2 = (Bd * X - B * Y) * ((Bd * B) * (X * B - Y * Bd))"
      by (simp only: a2) (subst c2, simp only: mult.assoc)
    then show ?thesis by (simp add: u)
  qed
  have "adjoint c1 * c1 + adjoint c2 * c2
      = Bd * ((X * X + Y * Y) * B) + B * ((X * X + Y * Y) * Bd)
        + Bd * ((Y * X - X * Y) * Bd) + B * ((X * Y - Y * X) * B)"
    unfolding p1 p2 by (simp add: algebra_simps)
  also have "\<dots> = smult 4 (Bd * B) + smult 4 (B * Bd)"
    by (simp add: sq XY smult_mult)
  also have "\<dots> = smult 8 1"
    by (simp add: u mat_eq_iff)
  finally show ?thesis .
qed

lemma adjoint_scaleR: "adjoint (r *\<^sub>R A) = r *\<^sub>R adjoint A" for A :: "'n::finite mat"
  by (simp add: scaleR_mat_def adjoint_simps)

lemma adjoint_power: "adjoint (A ^ n) = adjoint A ^ n" for A :: "'n::finite mat"
  by (induction n) (simp_all add: adjoint_simps adjoint_mult power_commutes)

lemma row_sum_adjoint_le: "row_sum (adjoint A) i \<le> real CARD('n) * mat_norm A"
  for A :: "'n::finite mat"
proof -
  have "row_sum (adjoint A) i = (\<Sum>j\<in>UNIV. cmod (ent A j i))"
    by (simp add: row_sum_def)
  also have "\<dots> \<le> (\<Sum>j\<in>(UNIV :: 'n set). mat_norm A)"
    by (intro sum_mono ent_le_norm)
  finally show ?thesis by simp
qed

lemma bounded_linear_adjoint: "bounded_linear (adjoint :: 'n::finite mat \<Rightarrow> 'n mat)"
proof
  fix A B :: "'n mat" and r :: real
  show "adjoint (A + B) = adjoint A + adjoint B" by (simp add: adjoint_simps)
  show "adjoint (r *\<^sub>R A) = r *\<^sub>R adjoint A" by (rule adjoint_scaleR)
  have "norm (adjoint A) \<le> norm A * real CARD('n)" for A :: "'n mat"
    using row_sum_adjoint_le [of A] by (simp add: norm_mat_def norm_le_iff mult.commute)
  then show "\<exists>K. \<forall>A :: 'n mat. norm (adjoint A) \<le> norm A * K" by blast
qed

lemma adjoint_exp: "adjoint (exp A) = exp (adjoint A)" for A :: "'n::finite mat"
proof -
  have "(\<lambda>n. adjoint (A ^ n /\<^sub>R fact n)) sums adjoint (exp A)"
    by (rule bounded_linear.sums [OF bounded_linear_adjoint exp_converges])
  then have "(\<lambda>n. adjoint A ^ n /\<^sub>R fact n) sums adjoint (exp A)"
    by (simp add: adjoint_scaleR adjoint_power)
  then show ?thesis using exp_converges [of "adjoint A"] by (rule sums_unique2)
qed

lemma unitary_exp:
  fixes G :: "'n::finite mat"
  assumes "adjoint G = - G"
  shows "unitary (exp G)"
proof -
  have "exp (- G) * exp G = 1" using exp_minus_inverse [of "- G"] by simp
  moreover have "exp G * exp (- G) = 1" by (rule exp_minus_inverse)
  ultimately show ?thesis by (simp add: unitary_def adjoint_exp assms)
qed



lemma ent_of_nat [simp]: "ent (of_nat m :: 'n::finite mat) i j = (if i = j then of_nat m else 0)"
  by (induction m) simp_all

lemma ent_numeral [simp]:
  "ent (numeral k :: 'n::finite mat) i j = (if i = j then numeral k else 0)"
  using ent_of_nat [of "numeral k" i j] by (simp del: ent_of_nat)

lemma ent_scaleR [simp]: "ent (t *\<^sub>R A) i j = complex_of_real t * ent A i j"
  for A :: "'n::finite mat"
  by (simp add: scaleR_mat_def)

section \<open>The two-level truncation\<close>

text \<open>Evaluation on the index type with two elements, the smallest truncation.\<close>

lemma UNIV_2: "(UNIV :: 2 set) = {0, 1}"
proof -
  have "x = 0 \<or> x = 1" for x :: 2
  proof (cases x)
    case (of_int z)
    then have "z = 0 \<or> z = 1" by auto
    with of_int show ?thesis by auto
  qed
  then show ?thesis by auto
qed

lemma sum_2: "(\<Sum>k\<in>(UNIV :: 2 set). f k) = f 0 + f 1"
  by (simp add: UNIV_2)




lemma mat_2_eq_iff:
  "A = B \<longleftrightarrow> ent A 0 0 = ent B 0 0 \<and> ent A 0 1 = ent B 0 1
              \<and> ent A 1 0 = ent B 1 0 \<and> ent A 1 1 = ent B 1 1"
  for A B :: "2 mat"
proof -
  have "(\<forall>i j. ent A i j = ent B i j) \<longleftrightarrow> (\<forall>i\<in>UNIV. \<forall>j\<in>UNIV. ent A i j = ent B i j)"
    by simp
  then show ?thesis unfolding mat_eq_iff UNIV_2 by auto
qed



section \<open>The Kraus map builder\<close>

lemma kraus_loop_result:
  assumes "0 \<le> dt" "Kraus 0 = Some K0"
  shows "\<exists>K'. kraus_loop dt i cs Kraus = Inr K'
     \<and> K' 0 = Some (K0 - smult (complex_of_real dt)
                      (smult (1 / 2) (sum_list (map (\<lambda>c. adjoint c * c) cs))))
     \<and> (\<forall>k < length cs. K' (Suc (i + k)) = Some (smult (complex_of_real (sqrt dt)) (cs ! k)))
     \<and> (\<forall>j. j \<noteq> 0 \<and> (j \<le> i \<or> i + length cs < j) \<longrightarrow> K' j = Kraus j)"
  using assms
proof (induction cs arbitrary: i Kraus K0)
  case Nil
  then show ?case by (simp add: smult_simps)
next
  case (Cons c cs)
  let ?K0 = "K0 - smult (complex_of_real dt) (smult (1 / 2) (adjoint c * c))"
  let ?Kraus = "Kraus(Suc i \<mapsto> smult (complex_of_real (sqrt dt)) c, 0 \<mapsto> ?K0)"
  have step: "kraus_loop dt i (c # cs) Kraus = kraus_loop dt (Suc i) cs ?Kraus"
    using Cons.prems by simp
  have "?Kraus 0 = Some ?K0" by simp
  with Cons.IH [of ?Kraus ?K0 "Suc i"] Cons.prems(1) obtain K' where
    K': "kraus_loop dt (Suc i) cs ?Kraus = Inr K'"
    and z: "K' 0 = Some (?K0 - smult (complex_of_real dt)
                      (smult (1 / 2) (sum_list (map (\<lambda>c. adjoint c * c) cs))))"
    and ks: "\<forall>k < length cs. K' (Suc (Suc i + k)) = Some (smult (complex_of_real (sqrt dt)) (cs ! k))"
    and other: "\<forall>j. j \<noteq> 0 \<and> (j \<le> Suc i \<or> Suc i + length cs < j) \<longrightarrow> K' j = ?Kraus j"
    by blast
  have z': "K' 0 = Some (K0 - smult (complex_of_real dt)
                      (smult (1 / 2) (sum_list (map (\<lambda>c. adjoint c * c) (c # cs)))))"
    unfolding z by (simp add: smult_simps(1) algebra_simps)
  have ks': "K' (Suc (i + k)) = Some (smult (complex_of_real (sqrt dt)) ((c # cs) ! k))"
    if "k < length (c # cs)" for k
  proof (cases k)
    case 0
    then show ?thesis using other by simp
  next
    case (Suc k')
    then show ?thesis using ks that by simp
  qed
  have other': "K' j = Kraus j" if "j \<noteq> 0 \<and> (j \<le> i \<or> i + length (c # cs) < j)" for j
    using other that by auto
  from step K' z' ks' other' show ?case by auto
qed

text \<open>
  C3. For a positive step \<open>dt\<close> the builder returns, for both simulators, the same Kraus
  dictionary: entry 0 is \<open>I - i H dt - 1/2 (\<Sum> c\<^sub>k\<^sup>\<dagger> c\<^sub>k) dt\<close>, entry \<open>k + 1\<close> is
  \<open>sqrt dt\<close> times the collapse operator \<open>c\<^sub>k\<close>, there is no further entry, and every
  entry is the operator repeated \<open>batch_size\<close> times.
\<close>

theorem kraus_map_builder:
  fixes env :: "('n::finite) oscillator"
  assumes "0 < discrete_step_duration cfg"
  defines "dt \<equiv> discrete_step_duration cfg"
  shows "\<exists>round delay. init_monte_carlo_sim env cfg b = Inr (round, delay)
     \<and> Kraus_ops delay = Kraus_ops round
     \<and> Kraus_ops round 0 = Some (replicate b
          (op_I env - smult (\<i> * complex_of_real dt) (Hamiltonian env)
                 - smult (1 / 2 * complex_of_real dt) (sum_list (map (\<lambda>c. adjoint c * c) (c_ops env)))))
     \<and> (\<forall>k < length (c_ops env).
           Kraus_ops round (Suc k) = Some (replicate b (smult (complex_of_real (sqrt dt)) (c_ops env ! k))))
     \<and> (\<forall>j > length (c_ops env). Kraus_ops round j = None)"
proof -
  let ?K0 = "op_I env - smult (complex_of_real dt) (smult \<i> (Hamiltonian env))"
  have dt: "0 \<le> dt" "dt \<noteq> 0" using assms by simp_all
  have "[0 \<mapsto> ?K0] 0 = Some ?K0" by simp
  with kraus_loop_result [of dt "[0 \<mapsto> ?K0]" ?K0 0 "c_ops env"] dt(1) obtain K' where
    K': "kraus_loop dt 0 (c_ops env) [0 \<mapsto> ?K0] = Inr K'"
    and z: "K' 0 = Some (?K0 - smult (complex_of_real dt)
                      (smult (1 / 2) (sum_list (map (\<lambda>c. adjoint c * c) (c_ops env)))))"
    and ks: "\<forall>k < length (c_ops env). K' (Suc (0 + k)) = Some (smult (complex_of_real (sqrt dt)) (c_ops env ! k))"
    and other: "\<forall>j. j \<noteq> 0 \<and> (j \<le> 0 \<or> 0 + length (c_ops env) < j) \<longrightarrow> K' j = [0 \<mapsto> ?K0] j"
    by blast
  have none: "K' j = None" if "length (c_ops env) < j" for j
    using other that by auto
  show ?thesis
    using K' z ks none dt
    by (simp add: init_monte_carlo_sim_def Let_def dt_def [symmetric] smult_simps(5) mult.commute)
qed

theorem kraus_map_builder_witness:
  "Kraus_ops (fst (projr (init_monte_carlo_sim example_osc example_cfg 2))) 1
     = Some (replicate 2 (smult (complex_of_real (sqrt (1 / 4))) (c_ops example_osc ! 0)))
   \<and> Kraus_ops (fst (projr (init_monte_carlo_sim example_osc example_cfg 2))) 2 = None"
proof -
  have d: "0 < discrete_step_duration example_cfg"
    by (simp add: example_cfg_def)
  have l: "length (c_ops example_osc) = 1"
    by (simp add: example_osc_def define_operators_def)
  from kraus_map_builder [OF d, of example_osc 2] obtain round delay where
    "init_monte_carlo_sim example_osc example_cfg 2 = Inr (round, delay)"
    and "\<forall>k < length (c_ops example_osc).
           Kraus_ops round (Suc k)
             = Some (replicate 2 (smult (complex_of_real (sqrt (discrete_step_duration example_cfg)))
                 (c_ops example_osc ! k)))"
    and "\<forall>j > length (c_ops example_osc). Kraus_ops round j = None"
    by blast
  then show ?thesis using l by (simp add: example_cfg_def)
qed

section \<open>Measurement\<close>

lemma vdot_vconj: "Re (vdot (vconj c) c) = norm2 c"
proof -
  have "cnj z * z = complex_of_real ((cmod z)\<^sup>2)" for z
    using complex_norm_square [of z] by (simp only: mult.commute)
  then show ?thesis by (simp add: vdot_def vconj_def norm2_def)
qed

lemma vec_select:
  "vadd (vscale 1 c0) (vscale 0 c1) = c0"
  "vadd (vscale 0 c0) (vscale 1 c1) = c1"
  by (cases c0; cases c1; simp add: vadd_def vscale_def)+

lemma measurement_element:
  fixes psi :: "('n::finite) vec list"
  assumes m: "measurement u psi Kraus = Inr (psi', obs)"
    and K: "Kraus 0 = Some K0" "Kraus 1 = Some K1"
    and i: "i < length psi"
  defines "c0 \<equiv> mat_vec (K0 ! i) (psi ! i)" and "c1 \<equiv> mat_vec (K1 ! i) (psi ! i)"
  defines "pr \<equiv> norm2 c1 / (norm2 c0 + norm2 c1)"
  shows "length psi' = length psi" and "length obs = length psi"
    and "obs ! i = [if u ! i < pr then - 1 else 1]"
    and "psi' ! i = (if u ! i < pr then c1 else c0)"
proof -
  from m K have l: "length K0 = length psi" "length K1 = length psi" "length u = length psi"
    by (auto simp: measurement_def split: if_splits)
  define ob where "ob = bernoulli_sample (map2 (\<lambda>x y. y / (x + y))
      (map (\<lambda>c. Re (vdot (vconj c) c)) (map2 mat_vec K0 psi))
      (map (\<lambda>c. Re (vdot (vconj c) c)) (map2 mat_vec K1 psi))) u"
  have lo: "length ob = length psi" using l by (simp add: ob_def bernoulli_sample_def)
  have oi: "ob ! i = (if u ! i < pr then 1 else 0)"
    using l i by (simp add: ob_def bernoulli_sample_def vdot_vconj pr_def c0_def c1_def)
  from m K l have p': "psi' = map2 (\<lambda>(c0, c1) m. vadd (vscale (1 - m) c0) (vscale m c1))
                         (zip (map2 mat_vec K0 psi) (map2 mat_vec K1 psi)) (map complex_of_int ob)"
    and o': "obs = map (\<lambda>ob. [real_of_int (1 - 2 * ob)]) ob"
    by (simp_all add: measurement_def Let_def ob_def)
  show "length psi' = length psi" using l lo by (simp add: p')
  show "length obs = length psi" using lo by (simp add: o')
  show "obs ! i = [if u ! i < pr then - 1 else 1]"
    using lo i oi by (simp add: o')
  show "psi' ! i = (if u ! i < pr then c1 else c0)"
    using l lo i oi by (simp add: p' c0_def c1_def vec_select)
qed

lemma norm2_nonneg: "0 \<le> norm2 v"
  by (simp add: norm2_def sum_nonneg)

text \<open>
  C4. For each batch element, with \<open>p\<^sub>i\<close> the squared norm of \<open>Kraus[i] psi\<close>: the
  reported outcome is \<open>-1\<close> (outcome 1) exactly when the element's own uniform draw falls
  below \<open>p\<^sub>1 / (p\<^sub>0 + p\<^sub>1)\<close> and \<open>+1\<close> (outcome 0) otherwise; that ratio lies in
  \<open>[0, 1]\<close>, and the draws of \<open>[0, 1)\<close> that give outcome 1 are the interval of that
  length. The outcome of an element depends on no other element's draw.
\<close>

theorem measurement_outcome_distribution:
  fixes psi :: "('n::finite) vec list"
  assumes "measurement u psi Kraus = Inr (psi', obs)"
    and "Kraus 0 = Some K0" and "Kraus 1 = Some K1"
    and "i < length psi"
  defines "p0 \<equiv> norm2 (mat_vec (K0 ! i) (psi ! i))"
    and "p1 \<equiv> norm2 (mat_vec (K1 ! i) (psi ! i))"
  shows "length obs = length psi
       \<and> obs ! i = [if u ! i < p1 / (p0 + p1) then - 1 else 1]
       \<and> 0 \<le> p1 / (p0 + p1) \<and> p1 / (p0 + p1) \<le> 1
       \<and> {x. 0 \<le> x \<and> x < 1 \<and> [if x < p1 / (p0 + p1) then - 1 else 1] = [- 1 :: real]}
           = {0 ..< p1 / (p0 + p1)}"
proof -
  note e = measurement_element [OF assms(1-4)]
  have n: "0 \<le> p0" "0 \<le> p1" by (simp_all add: p0_def p1_def norm2_nonneg)
  then have r: "0 \<le> p1 / (p0 + p1)" "p1 / (p0 + p1) \<le> 1"
    by (auto simp: divide_le_eq_1)
  then have "{x. 0 \<le> x \<and> x < 1 \<and> [if x < p1 / (p0 + p1) then - 1 else 1] = [- 1 :: real]}
           = {0 ..< p1 / (p0 + p1)}"
    by auto
  with e(2,3) r show ?thesis by (simp add: p0_def p1_def)
qed

lemma example_measurement:
  "measurement example_u example_psi example_Kraus
     = Inr ([Vec (\<lambda>i. if i = 0 then 3 / 5 else 0)], [[1]])"
  by (simp add: measurement_def example_u_def example_psi_def example_Kraus_def example_K0_def
      example_K1_def bernoulli_sample_def mat_vec_def vdot_def vconj_def vadd_def vscale_def
      sum_2 Let_def fun_eq_iff power2_eq_square)

lemma example_weights:
  "norm2 (mat_vec ([example_K0] ! 0) (example_psi ! 0)) = 9 / 25"
  "norm2 (mat_vec ([example_K1] ! 0) (example_psi ! 0)) = 16 / 25"
  by (simp_all add: example_psi_def example_K0_def example_K1_def norm2_def mat_vec_def sum_2
      power2_eq_square norm_divide)

theorem measurement_outcome_distribution_witness:
  "snd (projr (measurement example_u example_psi example_Kraus)) ! 0
     = [if example_u ! 0 < 16 / 25 then - 1 else 1]"
proof -
  have k: "example_Kraus 0 = Some [example_K0]" "example_Kraus 1 = Some [example_K1]"
    by (simp_all add: example_Kraus_def)
  have i: "0 < length example_psi" by (simp add: example_psi_def)
  from measurement_outcome_distribution [OF example_measurement k i]
  have "[[1]] ! 0
      = [if example_u ! 0
            < norm2 (mat_vec ([example_K1] ! 0) (example_psi ! 0))
              / (norm2 (mat_vec ([example_K0] ! 0) (example_psi ! 0))
                 + norm2 (mat_vec ([example_K1] ! 0) (example_psi ! 0)))
         then - 1 else 1 :: real]"
    by blast
  then have "[[1]] ! 0 = [if example_u ! 0 < 16 / 25 then - 1 else 1 :: real]"
    unfolding example_weights by simp
  then show ?thesis by (simp only: example_measurement sum.sel snd_conv)
qed

lemma example_measurement1:
  "measurement example_u1 example_psi example_Kraus
     = Inr ([Vec (\<lambda>i. if i = 1 then 4 / 5 else 0)], [[- 1]])"
  by (simp add: measurement_def example_u1_def example_psi_def example_Kraus_def example_K0_def
      example_K1_def bernoulli_sample_def mat_vec_def vdot_def vconj_def vadd_def vscale_def
      sum_2 Let_def fun_eq_iff power2_eq_square)

text \<open>
  C1, as the claim states it, fails: on a unit-norm state and a complete pair of Kraus
  operators (the two coordinate projections), the state returned for the realized outcome 0
  has squared norm \<open>9/25\<close> and the one returned for the realized outcome 1 has squared
  norm \<open>16/25\<close>, not 1.
\<close>

theorem measurement_unit_norm_counterexample:
  "norm2 (hd example_psi) = 1
   \<and> adjoint example_K0 * example_K0 + adjoint example_K1 * example_K1 = 1
   \<and> norm2 (hd (fst (projr (measurement example_u example_psi example_Kraus)))) = 9 / 25
   \<and> norm2 (hd (fst (projr (measurement example_u1 example_psi example_Kraus)))) = 16 / 25"
  by (simp add: example_measurement example_measurement1)
     (simp add: example_psi_def example_K0_def example_K1_def norm2_def sum_2 mat_2_eq_iff
      power2_eq_square norm_divide)

text \<open>
  C1, amended. For each batch element the returned state is the candidate
  \<open>Kraus[k] psi\<close> of the realized outcome \<open>k\<close> as it is, not renormalized: its squared norm
  is the weight \<open>p\<^sub>k\<close> of that outcome (so it has unit norm only when \<open>p\<^sub>k = 1\<close>).
\<close>

theorem measurement_returns_branch_candidate:
  fixes psi :: "('n::finite) vec list"
  assumes "measurement u psi Kraus = Inr (psi', obs)"
    and "Kraus 0 = Some K0" and "Kraus 1 = Some K1"
    and "i < length psi"
  defines "c0 \<equiv> mat_vec (K0 ! i) (psi ! i)" and "c1 \<equiv> mat_vec (K1 ! i) (psi ! i)"
  shows "(obs ! i = [1] \<and> psi' ! i = c0 \<and> norm2 (psi' ! i) = norm2 c0)
       \<or> (obs ! i = [- 1] \<and> psi' ! i = c1 \<and> norm2 (psi' ! i) = norm2 c1)"
  using measurement_element(3,4) [OF assms(1-4)]
  by (simp add: c0_def c1_def)

theorem measurement_returns_branch_candidate_witness:
  "fst (projr (measurement example_u example_psi example_Kraus)) ! 0
     = mat_vec ([example_K0] ! 0) (example_psi ! 0)
   \<and> norm2 (fst (projr (measurement example_u example_psi example_Kraus)) ! 0) = 9 / 25"
proof -
  have k: "example_Kraus 0 = Some [example_K0]" "example_Kraus 1 = Some [example_K1]"
    by (simp_all add: example_Kraus_def)
  have i: "0 < length example_psi" by (simp add: example_psi_def)
  from measurement_returns_branch_candidate [OF example_measurement k i] example_weights(1)
  show ?thesis by (auto simp: example_measurement)
qed

section \<open>Completeness of the measurement operators\<close>

lemma create_adjoint: "create = adjoint (destroy :: 'n::{finite,linorder} mat)"
  by (simp add: create_def destroy_def mat_eq_iff)

lemma translation_unitary:
  assumes "op_a_dag env = adjoint (op_a env)"
  shows "unitary (translation env amp)"
  unfolding translation_def generator_def
  by (rule unitary_exp) (simp add: assms adjoint_simps)

lemma define_operators_a_dag:
  "op_a_dag (define_operators K T :: 'n::{finite,linorder} oscillator) = adjoint (op_a (define_operators K T :: 'n oscillator))"
  "op_I (define_operators K T :: 'n::{finite,linorder} oscillator) = 1"
  by (simp_all add: define_operators_def create_adjoint)

lemma phase_unit: "cnj (exp (\<i> * complex_of_real x)) * exp (\<i> * complex_of_real x) = 1"
proof -
  have "exp (\<i> * complex_of_real x) = cis x" by (simp add: cis_conv_exp)
  then show ?thesis by (simp add: cis_cnj cis_mult)
qed

lemma kraus_pair_nth:
  assumes "length X = b" "length ph = b" "length Y = b" "i < b"
  shows "fst (kraus_pair c X ph Y) ! i = smult c (X ! i + smult (ph ! i) (Y ! i))"
    and "snd (kraus_pair c X ph Y) ! i = smult c (X ! i - smult (ph ! i) (Y ! i))"
  using assms by (simp_all add: kraus_pair_def)

lemma kraus_pair_complete:
  fixes X Y :: "'n::finite mat list"
  assumes "length X = b" "length ph = b" "length Y = b" "i < b"
    and "cnj (ph ! i) * ph ! i = 1"
    and "smult (2 * (cnj c * c)) (adjoint (X ! i) * X ! i + adjoint (Y ! i) * Y ! i) = 1"
  shows "adjoint (fst (kraus_pair c X ph Y) ! i) * fst (kraus_pair c X ph Y) ! i
       + adjoint (snd (kraus_pair c X ph Y) ! i) * snd (kraus_pair c X ph Y) ! i = 1"
  unfolding kraus_pair_nth [OF assms(1-4)] kraus_pair_sum [OF assms(5)] by (rule assms(6))

text \<open>
  C2. For the operators \<open>define_operators\<close> builds (any truncation, any \<open>K_osc\<close> and
  \<open>T1_osc\<close>), every batch element, and every \<open>beta\<close>, real \<open>phi\<close> (and \<open>epsilon\<close>): the two
  measurement operators of circuit 1, of circuit 2 and of circuit 3 satisfy
  \<open>Kraus[0]\<^sup>\<dagger> Kraus[0] + Kraus[1]\<^sup>\<dagger> Kraus[1] = I\<close>, with the translations the exact
  matrix exponentials.
\<close>

theorem kraus_completeness:
  fixes env :: "('n::{finite,linorder}) oscillator"
  assumes "env = define_operators K_osc T1_osc" and "i < b"
  shows "(kraus_v1 env b phi beta = Inr (K0, K1) \<longrightarrow>
            adjoint (K0 ! i) * K0 ! i + adjoint (K1 ! i) * K1 ! i = 1)
       \<and> (kraus_v2 env b phi beta = Inr (K0, K1) \<longrightarrow>
            adjoint (K0 ! i) * K0 ! i + adjoint (K1 ! i) * K1 ! i = 1)
       \<and> (kraus_v3 env b phi beta epsilon = Inr (K0, K1) \<longrightarrow>
            adjoint (K0 ! i) * K0 ! i + adjoint (K1 ! i) * K1 ! i = 1)"
proof -
  have ad: "op_a_dag env = adjoint (op_a env)" and I1: "op_I env = 1"
    using assms(1) by (simp_all add: define_operators_a_dag)
  note U = translation_unitary [OF ad]
  have one: "smult (2 * (cnj (1 / 2) * (1 / 2))) ((1 :: 'n mat) + 1) = 1"
    by (simp add: mat_eq_iff)
  have v1: "adjoint (K0 ! i) * K0 ! i + adjoint (K1 ! i) * K1 ! i = 1"
    if "kraus_v1 env b phi beta = Inr (K0, K1)"
  proof -
    from that have l: "length beta = b" "length phi = b"
      and K: "(K0, K1) = kraus_pair (1 / 2) (replicate b (op_I env))
                (map (\<lambda>x. exp (\<i> * complex_of_real x)) phi) (map (translation env) beta)"
      by (auto simp: kraus_v1_def translate_def phase_def split: if_splits)
    have "adjoint (fst (K0, K1) ! i) * fst (K0, K1) ! i
        + adjoint (snd (K0, K1) ! i) * snd (K0, K1) ! i = 1"
      unfolding K
    proof (rule kraus_pair_complete [where b = b])
      show "cnj (map (\<lambda>x. exp (\<i> * complex_of_real x)) phi ! i)
            * map (\<lambda>x. exp (\<i> * complex_of_real x)) phi ! i = 1"
        using l assms(2) by (simp add: phase_unit)
      have "unitary (translation env (beta ! i))" by (rule U)
      then show "smult (2 * (cnj (1 / 2) * (1 / 2)))
         (adjoint (replicate b (op_I env) ! i) * replicate b (op_I env) ! i
          + adjoint (map (translation env) beta ! i) * map (translation env) beta ! i) = 1"
        using l assms(2) one by (simp add: I1 unitary_def adjoint_simps)
    qed (use l assms(2) in simp_all)
    then show ?thesis by simp
  qed
  have v2: "adjoint (K0 ! i) * K0 ! i + adjoint (K1 ! i) * K1 ! i = 1"
    if "kraus_v2 env b phi beta = Inr (K0, K1)"
  proof -
    let ?T = "map (translation env) (map (\<lambda>x. x / 2) beta)"
    from that have l: "length beta = b" "length phi = b"
      and K: "(K0, K1) = kraus_pair (1 / 2) (map adjoint ?T)
                (map (\<lambda>x. exp (\<i> * complex_of_real x)) phi) ?T"
      by (auto simp: kraus_v2_def translate_def phase_def split: if_splits)
    have "adjoint (fst (K0, K1) ! i) * fst (K0, K1) ! i
        + adjoint (snd (K0, K1) ! i) * snd (K0, K1) ! i = 1"
      unfolding K
    proof (rule kraus_pair_complete [where b = b])
      show "cnj (map (\<lambda>x. exp (\<i> * complex_of_real x)) phi ! i)
            * map (\<lambda>x. exp (\<i> * complex_of_real x)) phi ! i = 1"
        using l assms(2) by (simp add: phase_unit)
      have "unitary (translation env (beta ! i / 2))" by (rule U)
      then show "smult (2 * (cnj (1 / 2) * (1 / 2)))
         (adjoint (map adjoint ?T ! i) * map adjoint ?T ! i + adjoint (?T ! i) * ?T ! i) = 1"
        using l assms(2) one by (simp add: unitary_def adjoint_simps)
    qed (use l assms(2) in simp_all)
    then show ?thesis by simp
  qed
  have v3: "adjoint (K0 ! i) * K0 ! i + adjoint (K1 ! i) * K1 ! i = 1"
    if "kraus_v3 env b phi beta epsilon = Inr (K0, K1)"
  proof -
    let ?B = "map (translation env) (map (\<lambda>x. x / 2) beta)"
    let ?E = "map (translation env) (map (\<lambda>x. x / 2) epsilon)"
    let ?c1 = "map2 (\<lambda>B E. chunk1 B (adjoint B) E (adjoint E)) ?B ?E"
    let ?c2 = "map2 (\<lambda>B E. chunk2 B (adjoint B) E (adjoint E)) ?B ?E"
    from that have l: "length beta = b" "length phi = b" "length epsilon = b"
      and K: "(K0, K1) = kraus_pair (1 / 4) ?c1 (map (\<lambda>x. exp (\<i> * complex_of_real x)) phi) ?c2"
      by (auto simp: kraus_v3_def translate_def phase_def split: if_splits)
    have uB: "unitary (translation env (beta ! i / 2))"
      and uE: "unitary (translation env (epsilon ! i / 2))" by (rule U)+
    have e8: "smult (2 * (cnj (1 / 4) * (1 / 4))) (smult 8 (1 :: 'n mat)) = 1"
      by (simp add: mat_eq_iff)
    have "adjoint (fst (K0, K1) ! i) * fst (K0, K1) ! i
        + adjoint (snd (K0, K1) ! i) * snd (K0, K1) ! i = 1"
      unfolding K
    proof (rule kraus_pair_complete [where b = b])
      show "cnj (map (\<lambda>x. exp (\<i> * complex_of_real x)) phi ! i)
            * map (\<lambda>x. exp (\<i> * complex_of_real x)) phi ! i = 1"
        using l assms(2) by (simp add: phase_unit)
      have "adjoint (?c1 ! i) * ?c1 ! i + adjoint (?c2 ! i) * ?c2 ! i = smult 8 1"
        using l assms(2) chunk_sum [OF uB uE] by (simp add: chunk1_def chunk2_def)
      then show "smult (2 * (cnj (1 / 4) * (1 / 4)))
         (adjoint (?c1 ! i) * ?c1 ! i + adjoint (?c2 ! i) * ?c2 ! i) = 1"
        using e8 by simp
    qed (use l assms(2) in simp_all)
    then show ?thesis by simp
  qed
  from v1 v2 v3 show ?thesis by blast
qed

theorem kraus_completeness_witness:
  "adjoint (fst (projr (kraus_v1 example_osc 1 [1 / 2] [1 + \<i>])) ! 0)
     * fst (projr (kraus_v1 example_osc 1 [1 / 2] [1 + \<i>])) ! 0
   + adjoint (snd (projr (kraus_v1 example_osc 1 [1 / 2] [1 + \<i>])) ! 0)
     * snd (projr (kraus_v1 example_osc 1 [1 / 2] [1 + \<i>])) ! 0 = 1
   \<and> adjoint (fst (projr (kraus_v3 example_osc 1 [1 / 2] [1 + \<i>] [\<i>])) ! 0)
     * fst (projr (kraus_v3 example_osc 1 [1 / 2] [1 + \<i>] [\<i>])) ! 0
   + adjoint (snd (projr (kraus_v3 example_osc 1 [1 / 2] [1 + \<i>] [\<i>])) ! 0)
     * snd (projr (kraus_v3 example_osc 1 [1 / 2] [1 + \<i>] [\<i>])) ! 0 = 1"
proof -
  have e: "example_osc = define_operators 1 1" by (simp add: example_osc_def)
  have i: "(0 :: nat) < 1" by simp
  have h1: "kraus_v1 example_osc 1 [1 / 2] [1 + \<i>]
      = Inr (fst (projr (kraus_v1 example_osc 1 [1 / 2] [1 + \<i>])),
             snd (projr (kraus_v1 example_osc 1 [1 / 2] [1 + \<i>])))"
    by (simp add: kraus_v1_def translate_def phase_def)
  have h3: "kraus_v3 example_osc 1 [1 / 2] [1 + \<i>] [\<i>]
      = Inr (fst (projr (kraus_v3 example_osc 1 [1 / 2] [1 + \<i>] [\<i>])),
             snd (projr (kraus_v3 example_osc 1 [1 / 2] [1 + \<i>] [\<i>])))"
    by (simp add: kraus_v3_def translate_def phase_def)
  from kraus_completeness [OF e i, of "[1 / 2]" "[1 + \<i>]"
        "fst (projr (kraus_v1 example_osc 1 [1 / 2] [1 + \<i>]))"
        "snd (projr (kraus_v1 example_osc 1 [1 / 2] [1 + \<i>]))" "[\<i>]"] h1
       kraus_completeness [OF e i, of "[1 / 2]" "[1 + \<i>]"
        "fst (projr (kraus_v3 example_osc 1 [1 / 2] [1 + \<i>] [\<i>]))"
        "snd (projr (kraus_v3 example_osc 1 [1 / 2] [1 + \<i>] [\<i>]))" "[\<i>]"] h3
  show ?thesis by blast
qed

section \<open>Composition of translations\<close>













end
